theory Spec2Isabelle
  imports Main
begin

section \<open>Python values and exceptions\<close>

text \<open>
  The exceptions that the functions of \<^verbatim>\<open>xenakis.py\<close> can raise, either by an
  explicit \<^verbatim>\<open>raise\<close> (\<open>ValueError\<close>) or from a Python built-in operation:
  indexing (\<open>IndexError\<close>), \<^verbatim>\<open>%\<close> with divisor zero (\<open>ZeroDivisionError\<close>),
  an operation on a value of the wrong type (\<open>TypeError\<close>) and the use of a local
  variable that no branch has bound (\<open>UnboundLocalError\<close>).
\<close>

datatype error = ValueError | IndexError | TypeError | ZeroDivisionError | UnboundLocalError

text \<open>
  A residual is the Python tuple \<^verbatim>\<open>(modulus, shift, is_negative)\<close>.
  Python integers are unbounded, so both numbers are of type \<open>int\<close>.
\<close>

type_synonym residual = "int \<times> int \<times> bool"

section \<open>Residual membership\<close>

text \<open>
  \<^verbatim>\<open>in_residual(v, res)\<close>. Python's \<^verbatim>\<open>%\<close> on integers is the floored remainder,
  which is what \<open>mod\<close> on \<open>int\<close> is; the divisor is never zero here because that case
  returns early.
\<close>

fun in_residual :: "int \<Rightarrow> residual \<Rightarrow> bool" where
  "in_residual v (mod', shift, neg) =
     (if mod' = 1 \<or> mod' = 0 then \<not> neg
      else (let truth = ((v - shift) mod mod' = 0)
            in (if neg then \<not> truth else truth)))"

text \<open>\<^verbatim>\<open>for_iter(res, z)\<close>: the elements of \<open>z\<close> that the residual accepts, in order.\<close>

definition for_iter :: "residual \<Rightarrow> int list \<Rightarrow> int list" where
  "for_iter res z = filter (\<lambda>n. in_residual n res) z"

section \<open>Simplifying a group\<close>

text \<open>
  The search loop of the two-residual branch of \<^verbatim>\<open>simplify_group\<close>:
  \<^verbatim>\<open>
  while not (in_residual(s, r) == in_residual(s, group[0]) == in_residual(s, group[1]))
        and seek <= m:
      s += 1; r = (m, s, False); seek += 1
  \<close>
  Python's chained comparison \<^verbatim>\<open>a == b == c\<close> is \<^verbatim>\<open>a == b and b == c\<close>, and \<open>r\<close> is
  \<open>(m, s, False)\<close> each time the condition is evaluated. The function returns the final
  values of \<open>s\<close> and \<open>seek\<close>. The loop ends after at most \<open>m + 1\<close> rounds.
\<close>

function seek_loop :: "residual \<Rightarrow> residual \<Rightarrow> int \<Rightarrow> int \<Rightarrow> int \<Rightarrow> int \<times> int" where
  "seek_loop g0 g1 m s seek =
     (if \<not> (in_residual s (m, s, False) = in_residual s g0
             \<and> in_residual s g0 = in_residual s g1) \<and> seek \<le> m
      then seek_loop g0 g1 m (s + 1) (seek + 1)
      else (s, seek))"
  by pat_completeness auto
termination
  by (relation "measure (\<lambda>(g0, g1, m, s, seek). nat (m + 1 - seek))") auto

declare seek_loop.simps [simp del]

text \<open>
  The branch \<^verbatim>\<open>if len(group) == 2\<close> of \<^verbatim>\<open>simplify_group\<close>, for
  \<open>group = [g0, g1]\<close>: the product of the moduli, the smaller shift as the start of
  the search, the loop, then \<^verbatim>\<open>if seek == m: raise ValueError(...)\<close> and
  \<^verbatim>\<open>return [r]\<close>.
\<close>

definition simplify_pair :: "residual \<Rightarrow> residual \<Rightarrow> error + residual list" where
  "simplify_pair g0 g1 =
     (let m = fst g0 * fst g1;
          s = min (fst (snd g0)) (fst (snd g1));
          (s', seek) = seek_loop g0 g1 m s 0
      in if seek = m then Inl ValueError else Inr [(m, s', False)])"

text \<open>
  The final loop of \<^verbatim>\<open>simplify_group\<close>:
  \<^verbatim>\<open>
  while len(group) >= 2:
      end = group[2:]
      simple = simplify_group(group[:2]) + end
      group = simple
  return group
  \<close>
  \<^verbatim>\<open>group[:2]\<close> has exactly two elements inside the loop, so the recursive call
  always takes the two-residual branch, which is \<open>simplify_pair\<close>.
\<close>

function (sequential) while_group :: "residual list \<Rightarrow> error + residual list" where
  "while_group (a # b # end') =
     (case simplify_pair a b of
        Inl e \<Rightarrow> Inl e
      | Inr simple \<Rightarrow> while_group (simple @ end'))"
| "while_group grp = Inr grp"
  by pat_completeness auto
termination
  by (relation "measure length")
     (auto simp: simplify_pair_def Let_def split: prod.splits if_splits)

text \<open>
  \<^verbatim>\<open>simplify_group(group)\<close>: a one-element group is returned as it is, a two-element
  group goes through the search, any other length (zero included) reaches the final loop.
\<close>

fun simplify_group :: "residual list \<Rightarrow> error + residual list" where
  "simplify_group [x] = Inr [x]"
| "simplify_group [a, b] = simplify_pair a b"
| "simplify_group grp = while_group grp"

section \<open>Python built-ins on strings\<close>

text \<open>
  Strings are lists of characters with code points below 256. \<open>is_space\<close> is
  \<^verbatim>\<open>str.isspace\<close> on one such character: tab to carriage return, the separators
  28 to 31, the space, and the code points 133 and 160.
\<close>

definition is_space :: "char \<Rightarrow> bool" where
  "is_space c = (let k = (of_char c :: nat)
                 in (9 \<le> k \<and> k \<le> 13) \<or> (28 \<le> k \<and> k \<le> 32) \<or> k = 133 \<or> k = 160)"

text \<open>\<^verbatim>\<open>s.strip()\<close>: whitespace removed at both ends.\<close>

definition strip :: "string \<Rightarrow> string" where
  "strip s = rev (dropWhile is_space (rev (dropWhile is_space s)))"

text \<open>
  \<^verbatim>\<open>s.split(sep)\<close> for a one-character separator: the pieces between the separators,
  empty pieces included; a string without the separator is returned as its only piece.
\<close>

fun split_on :: "char \<Rightarrow> string \<Rightarrow> string list" where
  "split_on sep [] = [[]]"
| "split_on sep (c # cs) =
     (if c = sep then [] # split_on sep cs
      else (case split_on sep cs of
              [] \<Rightarrow> [[c]]
            | p # ps \<Rightarrow> (c # p) # ps))"

text \<open>\<^verbatim>\<open>sep.join(parts)\<close>.\<close>

fun join :: "string \<Rightarrow> string list \<Rightarrow> string" where
  "join sep [] = []"
| "join sep [x] = x"
| "join sep (x # y # ys) = x @ sep @ join sep (y # ys)"

text \<open>
  \<^verbatim>\<open>int(text)\<close> on a string: surrounding whitespace is ignored, one sign may come
  first, and the rest must be decimal digits, where single underscores may stand between
  two digits. Anything else raises \<open>ValueError\<close>.
\<close>

definition is_digit :: "char \<Rightarrow> bool" where
  "is_digit c = (48 \<le> (of_char c :: nat) \<and> (of_char c :: nat) \<le> 57)"

fun digits_ok :: "string \<Rightarrow> bool" where
  "digits_ok [] = False"
| "digits_ok [c] = is_digit c"
| "digits_ok (c # d # cs) =
     (is_digit c \<and> (if d = CHR ''_'' then digits_ok cs else digits_ok (d # cs)))"

definition digits_val :: "string \<Rightarrow> int" where
  "digits_val body = foldl (\<lambda>acc c. 10 * acc + (of_char c - 48)) 0 (filter is_digit body)"

definition py_int :: "string \<Rightarrow> error + int" where
  "py_int text =
     (case strip text of
        [] \<Rightarrow> Inl ValueError
      | c # cs \<Rightarrow>
          (let body = (if c = CHR ''-'' \<or> c = CHR ''+'' then cs else c # cs)
           in if digits_ok body
              then Inr (if c = CHR ''-'' then - digits_val body else digits_val body)
              else Inl ValueError))"

text \<open>
  \<^verbatim>\<open>str(i)\<close> for an integer, which is what the f-strings of the source put in
  the place of \<^verbatim>\<open>{x}\<close>, \<^verbatim>\<open>{y}\<close>, \<^verbatim>\<open>{m}\<close> and \<^verbatim>\<open>{s}\<close>: the decimal digits
  without leading zeros, after a minus sign when the number is negative.
\<close>

function digits_of :: "nat \<Rightarrow> string" where
  "digits_of n =
     (if n < 10 then [char_of (48 + n)]
      else digits_of (n div 10) @ [char_of (48 + n mod 10)])"
  by pat_completeness auto
termination
  by (relation "measure id") auto

declare digits_of.simps [simp del]

definition py_str :: "int \<Rightarrow> string" where
  "py_str i = (if i < 0 then CHR ''-'' # digits_of (nat (- i)) else digits_of (nat i))"

section \<open>Parsing\<close>

text \<open>
  \<^verbatim>\<open>clean_sieve_str(res)\<close> keeps the characters of \<^verbatim>\<open>res.strip()\<close> that are
  neither a space nor a newline.
\<close>

definition clean_sieve_str :: "string \<Rightarrow> string" where
  "clean_sieve_str res = filter (\<lambda>c. c \<noteq> CHR '' '' \<and> c \<noteq> CHR 0x0A) (strip res)"

text \<open>
  \<^verbatim>\<open>parse_residual(res)\<close>. \<^verbatim>\<open>res[0]\<close> raises \<open>IndexError\<close> on the empty string.
  With an \<^verbatim>\<open>@\<close> in the text,
  \<^verbatim>\<open>modulus, shift = (int(_) for _ in res.split('@'))\<close> needs exactly two pieces that
  are both integers; every other outcome of that line is a \<open>ValueError\<close>.
\<close>

definition parse_residual :: "string \<Rightarrow> error + residual" where
  "parse_residual res0 =
     (case clean_sieve_str res0 of
        [] \<Rightarrow> Inl IndexError
      | c # cs \<Rightarrow>
          (let neg = (c = CHR ''!'');
               res = (if c = CHR ''!'' then cs else c # cs)
           in if CHR ''@'' \<in> set res
              then (case split_on CHR ''@'' res of
                      [a, b] \<Rightarrow>
                        (case py_int a of
                           Inl e \<Rightarrow> Inl e
                         | Inr modulus \<Rightarrow>
                             (case py_int b of
                                Inl e \<Rightarrow> Inl e
                              | Inr shift \<Rightarrow> Inr (modulus, shift, neg)))
                    | _ \<Rightarrow> Inl ValueError)
              else (case py_int res of
                      Inl e \<Rightarrow> Inl e
                    | Inr modulus \<Rightarrow> Inr (modulus, 0, neg))))"

text \<open>
  The values that \<^verbatim>\<open>parse_sieve_str\<close> builds are Python lists whose elements are
  residual tuples or again such lists, nested as deep as the code nests them.
\<close>

datatype pyobj = Tup residual | Lst "pyobj list"

text \<open>
  A \<^verbatim>\<open>for\<close> loop that appends one computed element per round: the first exception
  ends it, otherwise the elements are collected in order.
\<close>

fun collect :: "(error + 'a) list \<Rightarrow> error + 'a list" where
  "collect [] = Inr []"
| "collect (x # xs) =
     (case x of
        Inl e \<Rightarrow> Inl e
      | Inr v \<Rightarrow> (case collect xs of Inl e \<Rightarrow> Inl e | Inr vs \<Rightarrow> Inr (v # vs)))"

text \<open>
  \<^verbatim>\<open>parse_sieve_str(res)\<close>, branch by branch:
  \<^verbatim>\<open>
  if '|' in res:
      for group in res.split('|'): groups += [parse_sieve_str(group)]
      return groups
  if '&' in res:
      for residual in res.split('&'): groups += [parse_residual(residual)]
      return groups
  groups.append([parse_residual(res)])
  return groups
  \<close>
  \<^verbatim>\<open>groups += [x]\<close> appends the one element \<open>x\<close>: in the first branch \<open>x\<close> is the whole
  list returned by the recursive call, in the second it is a residual tuple. The
  recursive calls are on pieces of a string that contains a separator, so each piece is
  shorter than the argument.
\<close>

function parse_sieve_str :: "string \<Rightarrow> error + pyobj list" where
  "parse_sieve_str res0 =
     (let res = clean_sieve_str res0
      in if CHR ''|'' \<in> set res
         then collect (map (\<lambda>grp. map_sum id Lst (parse_sieve_str grp)) (split_on CHR ''|'' res))
         else if CHR ''&'' \<in> set res
         then collect (map (\<lambda>residual. map_sum id Tup (parse_residual residual))
                           (split_on CHR ''&'' res))
         else (case parse_residual res of
                 Inl e \<Rightarrow> Inl e
               | Inr r \<Rightarrow> Inr [Lst [Tup r]]))"
  by pat_completeness auto
termination
proof (relation "measure length")
  show "wf (measure length)" by simp
next
  fix res0 res :: string and grp :: string
  assume res: "res = clean_sieve_str res0"
    and bar: "CHR ''|'' \<in> set res"
    and grp: "grp \<in> set (split_on CHR ''|'' res)"
  have le: "length p \<le> length s" if "p \<in> set (split_on sep s)" for p s sep
    using that by (induction s arbitrary: p) (auto split: if_splits list.splits, force+)
  have ne: "split_on sep s \<noteq> []" for s and sep :: char
    by (induction s) (auto split: list.splits)
  have less: "length p < length s"
    if "sep \<in> set s" and "p \<in> set (split_on sep s)" for p s and sep :: char
    using that
  proof (induction s arbitrary: p)
    case Nil
    then show ?case by simp
  next
    case (Cons c cs)
    show ?case
    proof (cases "c = sep")
      case True
      with Cons.prems(2) have "p = [] \<or> p \<in> set (split_on sep cs)" by simp
      then show ?thesis using le [of p sep cs] by auto
    next
      case False
      with Cons.prems(1) have in_cs: "sep \<in> set cs" by simp
      obtain q qs where split: "split_on sep cs = q # qs"
        using ne [of sep cs] by (cases "split_on sep cs") auto
      with False Cons.prems(2) have "p = c # q \<or> p \<in> set qs" by simp
      then show ?thesis
      proof
        assume "p = c # q"
        moreover have "length q < length cs"
          using Cons.IH [OF in_cs, of q] split by simp
        ultimately show ?thesis by simp
      next
        assume "p \<in> set qs"
        then have "length p < length cs"
          using Cons.IH [OF in_cs, of p] split by simp
        then show ?thesis by simp
      qed
    qed
  qed
  have "length (strip res0) \<le> length res0"
    using length_dropWhile_le [of is_space "rev (dropWhile is_space res0)"]
      length_dropWhile_le [of is_space res0]
    by (simp add: strip_def)
  moreover have "length res \<le> length (strip res0)"
    by (simp add: res clean_sieve_str_def)
  ultimately have "length res \<le> length res0"
    by (rule order_trans [rotated])
  moreover have "length grp < length res"
    using less [OF bar grp] .
  ultimately show "(grp, res0) \<in> measure length" by simp
qed

declare parse_sieve_str.simps [simp del]

section \<open>The Sieve class\<close>

text \<open>
  A Sieve object holds \<^verbatim>\<open>_residuals\<close>, a list of groups, each group a list of
  residual tuples. The groups are mutable list objects that several Sieves can share
  (\<^verbatim>\<open>m._residuals[:]\<close> copies the outer list only), so they live in a heap: a list
  of group contents, addressed by position. A Sieve is the list of the addresses of its
  groups; this outer list belongs to one Sieve alone. Python has no dangling
  references, so the addresses of a Sieve are below the length of the heap; the
  statements that read a group say so where they need it. The attribute \<^verbatim>\<open>_cur_group\<close> is
  the constant \<^verbatim>\<open>'last'\<close> and \<^verbatim>\<open>_fmt\<close> is read by none of the operations below.
\<close>

type_synonym heap = "residual list list"

record sieve =
  residuals :: "nat list"

definition alloc :: "residual list \<Rightarrow> heap \<Rightarrow> nat \<times> heap" where
  "alloc g h = (length h, h @ [g])"

text \<open>
  \<^verbatim>\<open>norm_residual(res)\<close> is \<^verbatim>\<open>(res[0], res[1] % res[0], res[2])\<close>. On a residual
  tuple only \<^verbatim>\<open>%\<close> can raise, when the modulus is zero.
\<close>

definition norm_residual :: "residual \<Rightarrow> error + residual" where
  "norm_residual res =
     (case res of (m, s, n) \<Rightarrow>
        if m = 0 then Inl ZeroDivisionError else Inr (m, s mod m, n))"

text \<open>
  The normalisation loop of \<^verbatim>\<open>__init__\<close> on what the parser returned:
  \<^verbatim>\<open>
  for idx, group in enumerate(self._residuals):
      for jdx, residual in enumerate(group):
          self._residuals[idx][jdx] = norm_residual(residual)
  \<close>
  An element of a group that is itself a list \<open>ys\<close> makes \<^verbatim>\<open>norm_residual\<close> evaluate
  \<^verbatim>\<open>ys[0]\<close>, then \<^verbatim>\<open>ys[1] % ys[0]\<close>: an \<open>IndexError\<close> when \<open>ys\<close> has fewer than two
  elements, otherwise a \<open>TypeError\<close>, since tuples and lists have no \<^verbatim>\<open>%\<close>.
  A group that is a residual tuple is iterated number by number, and
  \<^verbatim>\<open>norm_residual\<close> of its modulus raises \<open>TypeError\<close> at \<^verbatim>\<open>res[0]\<close>.
\<close>

fun norm_element :: "pyobj \<Rightarrow> error + residual" where
  "norm_element (Tup res) = norm_residual res"
| "norm_element (Lst ys) = (if length ys < 2 then Inl IndexError else Inl TypeError)"

fun norm_group :: "pyobj \<Rightarrow> error + residual list" where
  "norm_group (Tup res) = Inl TypeError"
| "norm_group (Lst xs) = collect (map norm_element xs)"

definition norm_parsed :: "pyobj list \<Rightarrow> error + residual list list" where
  "norm_parsed objs = collect (map norm_group objs)"

fun alloc_all :: "residual list list \<Rightarrow> heap \<Rightarrow> nat list \<times> heap" where
  "alloc_all [] h = ([], h)"
| "alloc_all (g # gs) h =
     (let (a, h1) = alloc g h;
          (as, h2) = alloc_all gs h1
      in (a # as, h2))"

text \<open>
  The same loop on groups that are in the heap already, rewriting them in place. When a
  round raises, no heap is returned: the rounds before it have only replaced residuals
  by their normalised forms.
\<close>

fun norm_cells :: "nat list \<Rightarrow> heap \<Rightarrow> error + heap" where
  "norm_cells [] h = Inr h"
| "norm_cells (a # as) h =
     (case collect (map norm_residual (h ! a)) of
        Inl e \<Rightarrow> Inl e
      | Inr g \<Rightarrow> norm_cells as (h[a := g]))"

text \<open>
  \<^verbatim>\<open>Sieve.__init__(self, m, s, n)\<close> by the type of \<open>m\<close>: a string is parsed, an
  integer gives \<^verbatim>\<open>[[(m, s or 0, n or False)]]\<close>, a Sieve gives
  \<^verbatim>\<open>m._residuals[:]\<close>; then the normalisation loop runs. An exception leaves no
  object behind, so the result is either the error or the new Sieve with the new heap.
\<close>

datatype init_arg = FromStr string | FromInt int "int option" "bool option" | FromSieve sieve

fun sieve_init :: "init_arg \<Rightarrow> heap \<Rightarrow> error + (sieve \<times> heap)" where
  "sieve_init (FromStr m) h =
     (case parse_sieve_str m of
        Inl e \<Rightarrow> Inl e
      | Inr objs \<Rightarrow>
          (case norm_parsed objs of
             Inl e \<Rightarrow> Inl e
           | Inr groups \<Rightarrow>
               (let (as, h') = alloc_all groups h
                in Inr (\<lparr>residuals = as\<rparr>, h'))))"
| "sieve_init (FromInt m s n) h =
     (let (a, h1) = alloc [(m, (case s of None \<Rightarrow> 0 | Some s' \<Rightarrow> s'),
                               (case n of None \<Rightarrow> False | Some n' \<Rightarrow> n'))] h
      in (case norm_cells [a] h1 of
            Inl e \<Rightarrow> Inl e
          | Inr h' \<Rightarrow> Inr (\<lparr>residuals = [a]\<rparr>, h')))"
| "sieve_init (FromSieve m) h =
     (case norm_cells (residuals m) h of
        Inl e \<Rightarrow> Inl e
      | Inr h' \<Rightarrow> Inr (\<lparr>residuals = residuals m\<rparr>, h'))"

text \<open>The property \<^verbatim>\<open>stype\<close>, with the three strings it returns as constructors.\<close>

datatype stype = Simple | Compound | Complex

definition stype_of :: "sieve \<Rightarrow> heap \<Rightarrow> stype" where
  "stype_of s h =
     (if length (residuals s) > 1 then Complex
      else if length (residuals s) = 1 \<and> length (h ! (residuals s ! 0)) > 1 then Compound
      else Simple)"

text \<open>
  The local variable \<^verbatim>\<open>push\<close> of \<^verbatim>\<open>__or__\<close> and \<^verbatim>\<open>__and__\<close>:
  \<^verbatim>\<open>
  if other.stype == 'simple':
      push = [(other._residuals[0][0])]
  elif other.stype == 'compound':
      push = [(residual[0], residual[1], residual[2]) for residual in other._residuals[0]]
  \<close>
  For a complex operand no branch binds it, which is the value \<open>None\<close> here.
\<close>

definition push_of :: "sieve \<Rightarrow> heap \<Rightarrow> error + residual list option" where
  "push_of other h =
     (case stype_of other h of
        Simple \<Rightarrow>
          (case residuals other of
             [] \<Rightarrow> Inl IndexError
           | a # _ \<Rightarrow> (case h ! a of [] \<Rightarrow> Inl IndexError | r # _ \<Rightarrow> Inr (Some [r])))
      | Compound \<Rightarrow> Inr (Some (h ! (residuals other ! 0)))
      | Complex \<Rightarrow> Inr None)"

text \<open>
  The right operand of \<^verbatim>\<open>|\<close> and \<^verbatim>\<open>&\<close>: a string, a tuple
  \<^verbatim>\<open>(modulus, shift, negated)\<close> or a Sieve. The first two are turned into a Sieve by
  \<^verbatim>\<open>Sieve(other)\<close> and \<^verbatim>\<open>Sieve(*other)\<close>.
\<close>

datatype operand = OpStr string | OpTuple int int bool | OpSieve sieve

fun to_sieve :: "operand \<Rightarrow> heap \<Rightarrow> error + (sieve \<times> heap)" where
  "to_sieve (OpStr text) h = sieve_init (FromStr text) h"
| "to_sieve (OpTuple m s n) h = sieve_init (FromInt m (Some s) (Some n)) h"
| "to_sieve (OpSieve other) h = Inr (other, h)"

text \<open>
  \<^verbatim>\<open>Sieve.__or__(self, other)\<close>: after \<^verbatim>\<open>push\<close>,
  \<^verbatim>\<open>new = Sieve(self); new._residuals.append(push); return new\<close>. Reading the unbound
  \<^verbatim>\<open>push\<close> raises \<open>UnboundLocalError\<close>.
\<close>

definition sieve_or :: "sieve \<Rightarrow> operand \<Rightarrow> heap \<Rightarrow> error + (sieve \<times> heap)" where
  "sieve_or self other0 h =
     (case to_sieve other0 h of
        Inl e \<Rightarrow> Inl e
      | Inr (other, h1) \<Rightarrow>
          (case push_of other h1 of
             Inl e \<Rightarrow> Inl e
           | Inr push \<Rightarrow>
               (case sieve_init (FromSieve self) h1 of
                  Inl e \<Rightarrow> Inl e
                | Inr (new, h2) \<Rightarrow>
                    (case push of
                       None \<Rightarrow> Inl UnboundLocalError
                     | Some p \<Rightarrow>
                         (let (a, h3) = alloc p h2
                          in Inr (\<lparr>residuals = residuals new @ [a]\<rparr>, h3))))))"

text \<open>
  \<^verbatim>\<open>Sieve.__and__(self, other)\<close>: after \<^verbatim>\<open>push\<close>,
  \<^verbatim>\<open>new = Sieve(self); new._residuals[-1] += push; return new\<close>. On a list,
  \<^verbatim>\<open>+=\<close> extends the list object in place: the group at the last address of
  \<open>new\<close> is rewritten in the heap.
\<close>

definition sieve_and :: "sieve \<Rightarrow> operand \<Rightarrow> heap \<Rightarrow> error + (sieve \<times> heap)" where
  "sieve_and self other0 h =
     (case to_sieve other0 h of
        Inl e \<Rightarrow> Inl e
      | Inr (other, h1) \<Rightarrow>
          (case push_of other h1 of
             Inl e \<Rightarrow> Inl e
           | Inr push \<Rightarrow>
               (case sieve_init (FromSieve self) h1 of
                  Inl e \<Rightarrow> Inl e
                | Inr (new, h2) \<Rightarrow>
                    (if residuals new = [] then Inl IndexError
                     else (case push of
                             None \<Rightarrow> Inl UnboundLocalError
                           | Some p \<Rightarrow>
                               (let a = last (residuals new)
                                in Inr (new, h2[a := h2 ! a @ p])))))))"

text \<open>
  \<^verbatim>\<open>Sieve.__str__(self)\<close>: each residual as an exclamation mark if it is negated,
  then its modulus, an at sign and its shift; the
  residuals of a group joined by \<^verbatim>\<open>' & '\<close>, the groups joined by \<^verbatim>\<open>' | '\<close>.
\<close>

definition fmt_residual :: "residual \<Rightarrow> string" where
  "fmt_residual res =
     (case res of (m, s, n) \<Rightarrow> (if n then ''!'' else []) @ py_str m @ ''@'' @ py_str s)"

definition sieve_str :: "sieve \<Rightarrow> heap \<Rightarrow> string" where
  "sieve_str self h =
     join '' | '' (map (\<lambda>a. join '' & '' (map fmt_residual (h ! a))) (residuals self))"

text \<open>
  The property \<^verbatim>\<open>simplified\<close>:
  \<^verbatim>\<open>
  sieves = [Sieve(<x, at sign, y>) for x, y, _ in
            [simplify_group(group)[0] for group in self._residuals]]
  simple = sieves[0]
  for sieve in sieves[1:]:
      simple = simple | sieve
  return simple
  \<close>
  The inner comprehension is evaluated first (\<open>first_simplified\<close> per group), then one
  Sieve is built per result from the text of its modulus and shift (\<open>init_all\<close>), then
  the Sieves are united from the left (\<open>union_all\<close>).
\<close>

definition first_simplified :: "residual list \<Rightarrow> error + residual" where
  "first_simplified grp =
     (case simplify_group grp of
        Inl e \<Rightarrow> Inl e
      | Inr [] \<Rightarrow> Inl IndexError
      | Inr (r # _) \<Rightarrow> Inr r)"

fun init_all :: "residual list \<Rightarrow> heap \<Rightarrow> error + (sieve list \<times> heap)" where
  "init_all [] h = Inr ([], h)"
| "init_all ((x, y, _) # rs) h =
     (case sieve_init (FromStr (py_str x @ ''@'' @ py_str y)) h of
        Inl e \<Rightarrow> Inl e
      | Inr (sv, h1) \<Rightarrow>
          (case init_all rs h1 of
             Inl e \<Rightarrow> Inl e
           | Inr (svs, h2) \<Rightarrow> Inr (sv # svs, h2)))"

fun union_all :: "sieve \<Rightarrow> sieve list \<Rightarrow> heap \<Rightarrow> error + (sieve \<times> heap)" where
  "union_all simple [] h = Inr (simple, h)"
| "union_all simple (sv # svs) h =
     (case sieve_or simple (OpSieve sv) h of
        Inl e \<Rightarrow> Inl e
      | Inr (simple', h') \<Rightarrow> union_all simple' svs h')"

definition simplified :: "sieve \<Rightarrow> heap \<Rightarrow> error + (sieve \<times> heap)" where
  "simplified self h =
     (case collect (map (\<lambda>a. first_simplified (h ! a)) (residuals self)) of
        Inl e \<Rightarrow> Inl e
      | Inr rs \<Rightarrow>
          (case init_all rs h of
             Inl e \<Rightarrow> Inl e
           | Inr ([], _) \<Rightarrow> Inl IndexError
           | Inr (simple # rest, h1) \<Rightarrow> union_all simple rest h1))"

section \<open>Membership in a group and in a sieve\<close>

text \<open>
  Modelled from the spec: the source has no function that tests an integer against a
  whole group or a whole sieve. The specification defines group membership as the
  logical AND over all residuals of the group and sieve membership as the logical OR
  over all groups; both are built on the source's \<open>in_residual\<close>.
\<close>

definition in_group :: "int \<Rightarrow> residual list \<Rightarrow> bool" where
  "in_group v grp = list_all (in_residual v) grp"

definition in_sieve :: "int \<Rightarrow> sieve \<Rightarrow> heap \<Rightarrow> bool" where
  "in_sieve v s h = list_ex (\<lambda>a. in_group v (h ! a)) (residuals s)"

section \<open>Groups of non-negated residuals with coprime moduli\<close>

text \<open>
  The groups on which the search of \<open>simplify_pair\<close> is exact: at least one residual,
  none of them negated, every modulus positive, and any two moduli coprime.
\<close>

fun pairwise_coprime :: "int list \<Rightarrow> bool" where
  "pairwise_coprime [] = True"
| "pairwise_coprime (m # ms) = ((\<forall>k\<in>set ms. coprime m k) \<and> pairwise_coprime ms)"

definition plain_group :: "residual list \<Rightarrow> bool" where
  "plain_group grp =
     (grp \<noteq> [] \<and> (\<forall>r\<in>set grp. 0 < fst r \<and> \<not> snd (snd r)) \<and> pairwise_coprime (map fst grp))"

section \<open>Properties of residual membership\<close>

lemma in_residual_dvd:
  "m \<noteq> 0 \<Longrightarrow> in_residual v (m, s, n) = ((m dvd (v - s)) \<noteq> n)"
  by (auto simp: mod_eq_0_iff_dvd)

lemma mod_zero_iff_congruent:
  "((v - s) mod m = 0) = (\<exists>k. v = s + k * (m::int))"
proof
  assume "(v - s) mod m = 0"
  then have "m dvd (v - s)" by (simp add: mod_eq_0_iff_dvd)
  then obtain k where "v - s = m * k" by (auto simp: dvd_def)
  then have "v = s + k * m" by (simp add: algebra_simps)
  then show "\<exists>k. v = s + k * m" ..
next
  assume "\<exists>k. v = s + k * m"
  then obtain k where "v = s + k * m" ..
  then show "(v - s) mod m = 0" by simp
qed

text \<open>
  Claim C2. For every integer \<open>v\<close>, negative ones included, and every residual
  \<open>(m, s, n)\<close>: when the modulus is 0 or 1 the membership test answers \<open>\<not> n\<close>;
  otherwise it answers whether \<open>v\<close> is congruent to the shift modulo the modulus
  (the floored remainders of \<open>v\<close> and \<open>s\<close> agree, equivalently \<open>v = s + k * m\<close> for
  some integer \<open>k\<close>), inverted when the residual is negated.
\<close>

theorem in_residual_spec:
  "in_residual v (m, s, n) =
     (if m = 0 \<or> m = 1 then \<not> n
      else if n then v mod m \<noteq> s mod m else v mod m = s mod m)
   \<and> ((v mod m = s mod m) = (\<exists>k. v = s + k * m))"
proof -
  have eq: "((v - s) mod m = 0) = (v mod m = s mod m)"
    by (simp add: mod_eq_0_iff_dvd mod_eq_dvd_iff)
  have "(v mod m = s mod m) = (\<exists>k. v = s + k * m)"
    using mod_zero_iff_congruent [of v s m] eq by simp
  moreover have "in_residual v (m, s, n) =
     (if m = 0 \<or> m = 1 then \<not> n
      else if n then v mod m \<noteq> s mod m else v mod m = s mod m)"
    using eq by simp
  ultimately show ?thesis by blast
qed

section \<open>Properties of the simplifier\<close>

text \<open>
  The recursive call inside the final loop is the two-residual branch.
\<close>

lemma simplify_pair_length: "simplify_pair a b = Inr simple \<Longrightarrow> length simple = 1"
  by (auto simp: simplify_pair_def Let_def split: prod.splits if_splits)

lemma simplify_group_take2:
  "simplify_group (take 2 (a # b # end')) = simplify_pair a b"
  by simp

text \<open>
  Claim C9. Combining the residuals \<open>(3, 0, False)\<close> and \<open>(2, 0, False)\<close> yields the single
  non-negated residual \<open>(6, 0, False)\<close>, and the integers of \<open>0..11\<close> that it accepts are
  exactly 0 and 6.
\<close>

theorem simplify_group_3_2:
  "simplify_group [(3, 0, False), (2, 0, False)] = Inr [(6, 0, False)]
   \<and> for_iter (6, 0, False) [0..11] = [0, 6]"
proof -
  have "simplify_group [(3, 0, False), (2, 0, False)] = Inr [(6, 0, False)]"
    by code_simp
  moreover have "for_iter (6, 0, False) [0..11] = [0, 6]"
    by code_simp
  ultimately show ?thesis by blast
qed

text \<open>
  Claim C1 says that combining two residuals with no common integer raises, and names
  \<open>(2, 0, False)\<close> with \<open>(2, 1, False)\<close>. On that input the search tries the candidates
  \<open>0, 1, 2, 3, 4\<close>, all of which fail, leaves the loop with \<open>seek = 5\<close>, and the test
  \<^verbatim>\<open>seek == m\<close> compares 5 with 4: nothing is raised and the residual \<open>(4, 5, False)\<close>
  is returned, which accepts 1, 5, 9 and so on.
\<close>

theorem simplify_group_even_odd_returns:
  "simplify_group [(2, 0, False), (2, 1, False)] = Inr [(4, 5, False)]
   \<and> in_residual 1 (4, 5, False)"
proof -
  have "simplify_group [(2, 0, False), (2, 1, False)] = Inr [(4, 5, False)]"
    by code_simp
  moreover have "in_residual 1 (4, 5, False)"
    by simp
  ultimately show ?thesis by blast
qed

section \<open>Properties of the parser\<close>

text \<open>
  Claim C3 says that the parser returns a list of groups, each a list of residual
  tuples, whatever separators the text contains. The docstring of
  \<^verbatim>\<open>parse_sieve_str\<close> says the same (a list of a list of tuples). The code returns
  that shape only when the text has no separator, or when every piece between two
  \<^verbatim>\<open>|\<close> contains an \<^verbatim>\<open>&\<close>. For \<^verbatim>\<open>3@0&2@0\<close> the result is the flat list of
  the two tuples, with no group around them; for \<^verbatim>\<open>3@0|4@0\<close> each piece arrives as
  a list inside a list inside the result, one level too deep.
\<close>

theorem parse_sieve_str_shapes:
  "parse_sieve_str ''3@0&2@0'' = Inr [Tup (3, 0, False), Tup (2, 0, False)]
   \<and> parse_sieve_str ''3@0|4@0''
       = Inr [Lst [Lst [Tup (3, 0, False)]], Lst [Lst [Tup (4, 0, False)]]]"
proof -
  have "parse_sieve_str ''3@0&2@0'' = Inr [Tup (3, 0, False), Tup (2, 0, False)]"
    by code_simp
  moreover have "parse_sieve_str ''3@0|4@0''
      = Inr [Lst [Lst [Tup (3, 0, False)]], Lst [Lst [Tup (4, 0, False)]]]"
    by code_simp
  ultimately show ?thesis by blast
qed

text \<open>
  A text without separators gives one group of one residual, which is the documented
  shape.
\<close>

lemma parse_sieve_str_no_separator:
  assumes "CHR ''|'' \<notin> set (clean_sieve_str res)" "CHR ''&'' \<notin> set (clean_sieve_str res)"
  shows "parse_sieve_str res
           = (case parse_residual (clean_sieve_str res) of
                Inl e \<Rightarrow> Inl e
              | Inr r \<Rightarrow> Inr [Lst [Tup r]])"
  using assms by (subst parse_sieve_str.simps) (simp add: Let_def)

text \<open>
  The example in the comments of the source has an \<^verbatim>\<open>&\<close> in every piece, and there
  the two levels of nesting come out as documented.
\<close>

lemma parse_sieve_str_source_example:
  "parse_sieve_str ''4@2 & !1 | 3@2 & 7 & 9@2''
     = Inr [Lst [Tup (4, 2, False), Tup (1, 0, True)],
            Lst [Tup (3, 2, False), Tup (7, 0, False), Tup (9, 2, False)]]"
  by code_simp

section \<open>Properties of construction\<close>

text \<open>
  Claim C4 says that a Sieve can be built from every well-formed text, also one with
  \<^verbatim>\<open>&\<close> or \<^verbatim>\<open>|\<close>. Building from \<^verbatim>\<open>3@0&2@0\<close> raises \<open>TypeError\<close> in the
  normalisation loop, which iterates over the first tuple and indexes its modulus;
  building from \<^verbatim>\<open>3@0|4@0\<close> raises \<open>IndexError\<close>, at \<^verbatim>\<open>res[1]\<close> of the one-element
  list that stands where a residual should.
\<close>

theorem sieve_init_separator_text_raises:
  "sieve_init (FromStr ''3@0&2@0'') [] = Inl TypeError
   \<and> sieve_init (FromStr ''3@0|4@0'') [] = Inl IndexError"
proof -
  have "sieve_init (FromStr ''3@0&2@0'') [] = Inl TypeError"
    by code_simp
  moreover have "sieve_init (FromStr ''3@0|4@0'') [] = Inl IndexError"
    by code_simp
  ultimately show ?thesis by blast
qed

text \<open>
  Claim C8 says that building a Sieve from a residual with modulus 0 skips the reduction
  of the shift and does not raise. \<^verbatim>\<open>norm_residual\<close> has no test of the modulus:
  \<^verbatim>\<open>Sieve(0, s, n)\<close> raises \<open>ZeroDivisionError\<close> for every shift, every flag and
  every heap.
\<close>

theorem sieve_init_modulus_zero_raises:
  "sieve_init (FromInt 0 s n) h = Inl ZeroDivisionError"
  by (simp add: alloc_def norm_residual_def)

text \<open>With a modulus other than zero the shift is reduced, as the claim says.\<close>

lemma sieve_init_int_nonzero:
  "m \<noteq> 0 \<Longrightarrow>
   sieve_init (FromInt m (Some s) (Some n)) h
     = Inr (\<lparr>residuals = [length h]\<rparr>, h @ [[(m, s mod m, n)]])"
  by (simp add: alloc_def norm_residual_def)

section \<open>Normalising what is normal already\<close>

text \<open>
  A loop whose rounds all succeed collects every element. On groups whose residuals
  are normalised, the normalisation loop of \<^verbatim>\<open>Sieve(self)\<close> changes nothing.
\<close>

lemma collect_map_id: "(\<forall>x\<in>set xs. f x = Inr x) \<Longrightarrow> collect (map f xs) = Inr xs"
  by (induction xs) auto

lemma collect_all2:
  "collect (map f xs) = Inr ys \<Longrightarrow> list_all2 (\<lambda>x y. f x = Inr y) xs ys"
proof (induction xs arbitrary: ys)
  case Nil
  then show ?case by simp
next
  case (Cons x xs)
  then show ?case by (auto split: sum.splits)
qed

lemma norm_cells_id:
  "(\<forall>a\<in>set as. a < length h \<and> (\<forall>r\<in>set (h ! a). norm_residual r = Inr r))
   \<Longrightarrow> norm_cells as h = Inr h"
proof (induction as)
  case Nil
  then show ?case by simp
next
  case (Cons a as)
  then have "collect (map norm_residual (h ! a)) = Inr (h ! a)"
    by (intro collect_map_id) simp
  with Cons show ?case by simp
qed

lemma norm_residual_normed:
  "x \<noteq> 0 \<Longrightarrow> norm_residual (x, y mod x, n) = Inr (x, y mod x, n)"
  by (simp add: norm_residual_def)

section \<open>Properties of the operators\<close>

text \<open>
  Claim C6 says that \<open>A & B\<close> leaves \<open>A\<close> as it was. Take \<open>A = Sieve(3)\<close>, whose only
  group is at address 0 of the heap, and \<open>B = (2, 0, False)\<close>. The copy made by
  \<^verbatim>\<open>Sieve(self)\<close> shares the group with \<open>A\<close>, and \<^verbatim>\<open>+=\<close> extends that group in
  place: afterwards \<open>A\<close> itself prints as \<^verbatim>\<open>3@0 & 2@0\<close>, where it printed as
  \<^verbatim>\<open>3@0\<close> before.
\<close>

theorem sieve_and_changes_left_operand:
  "sieve_init (FromInt 3 None None) [] = Inr (\<lparr>residuals = [0]\<rparr>, [[(3, 0, False)]])
   \<and> sieve_and \<lparr>residuals = [0]\<rparr> (OpTuple 2 0 False) [[(3, 0, False)]]
       = Inr (\<lparr>residuals = [0]\<rparr>, [[(3, 0, False), (2, 0, False)], [(2, 0, False)]])
   \<and> sieve_str \<lparr>residuals = [0]\<rparr> [[(3, 0, False)]] = ''3@0''
   \<and> sieve_str \<lparr>residuals = [0]\<rparr> [[(3, 0, False), (2, 0, False)], [(2, 0, False)]]
       = ''3@0 & 2@0''"
proof -
  have "sieve_init (FromInt 3 None None) [] = Inr (\<lparr>residuals = [0]\<rparr>, [[(3, 0, False)]])"
    by code_simp
  moreover have "sieve_and \<lparr>residuals = [0]\<rparr> (OpTuple 2 0 False) [[(3, 0, False)]]
       = Inr (\<lparr>residuals = [0]\<rparr>, [[(3, 0, False), (2, 0, False)], [(2, 0, False)]])"
    by code_simp
  moreover have "sieve_str \<lparr>residuals = [0]\<rparr> [[(3, 0, False)]] = ''3@0''"
    by code_simp
  moreover have
    "sieve_str \<lparr>residuals = [0]\<rparr> [[(3, 0, False), (2, 0, False)], [(2, 0, False)]]
       = ''3@0 & 2@0''"
    by code_simp
  ultimately show ?thesis by blast
qed

text \<open>
  The same in general: for every Sieve \<open>A\<close> with normalised groups in the heap and
  every tuple with a modulus other than 0, the group at the last address of \<open>A\<close> is
  extended by the normalised tuple. The new Sieve has the addresses of \<open>A\<close>, so the
  extension is seen through both.
\<close>

lemma sieve_and_tuple:
  assumes ne: "residuals A \<noteq> []"
    and valid: "\<forall>a\<in>set (residuals A). a < length h
                  \<and> (\<forall>r\<in>set (h ! a). norm_residual r = Inr r)"
    and m: "m \<noteq> 0"
  shows "\<exists>h'. sieve_and A (OpTuple m s n) h = Inr (\<lparr>residuals = residuals A\<rparr>, h')
           \<and> h' ! last (residuals A) = h ! last (residuals A) @ [(m, s mod m, n)]"
proof -
  define r where "r = (m, s mod m, n)"
  define h1 where "h1 = h @ [[r]]"
  have conv: "to_sieve (OpTuple m s n) h = Inr (\<lparr>residuals = [length h]\<rparr>, h1)"
    using m by (simp add: alloc_def norm_residual_def h1_def r_def)
  have push: "push_of \<lparr>residuals = [length h]\<rparr> h1 = Inr (Some [r])"
    by (simp add: push_of_def stype_of_def h1_def)
  have old: "h1 ! a = h ! a" if "a < length h" for a
    using that by (simp add: h1_def nth_append)
  have "\<forall>a\<in>set (residuals A). a < length h1
          \<and> (\<forall>r\<in>set (h1 ! a). norm_residual r = Inr r)"
    using valid old by (auto simp: h1_def)
  from norm_cells_id [OF this]
  have copy: "sieve_init (FromSieve A) h1 = Inr (\<lparr>residuals = residuals A\<rparr>, h1)"
    by simp
  define a where "a = last (residuals A)"
  have a: "a < length h" using ne valid by (simp add: a_def)
  have "sieve_and A (OpTuple m s n) h
          = Inr (\<lparr>residuals = residuals A\<rparr>, h1[a := h1 ! a @ [r]])"
    unfolding sieve_and_def conv
    using push copy ne by (simp add: a_def Let_def del: sieve_init.simps to_sieve.simps)
  moreover have "(h1[a := h1 ! a @ [r]]) ! a = h ! a @ [r]"
    using a old [OF a] by (simp add: h1_def)
  ultimately show ?thesis unfolding a_def r_def by blast
qed

text \<open>
  Claim C10. When the right operand, once it is turned into a Sieve, has more than one
  group, both \<open>A | B\<close> and \<open>A & B\<close> end in an exception and return no Sieve, for
  every \<open>A\<close> and every heap. The operand may be that Sieve itself or a text that
  parses to it.
\<close>

theorem complex_operand_raises:
  assumes "to_sieve other0 h = Inr (B, h1)" and "length (residuals B) > 1"
  shows "isl (sieve_or A other0 h) \<and> isl (sieve_and A other0 h)"
  using assms
  by (auto simp: sieve_or_def sieve_and_def push_of_def stype_of_def
           simp del: sieve_init.simps split: sum.splits)

theorem complex_operand_raises_witness:
  "to_sieve (OpStr ''4@2 & !1 | 3@2 & 7'') [[(3, 0, False)]]
     = Inr (\<lparr>residuals = [1, 2]\<rparr>,
            [[(3, 0, False)], [(4, 2, False), (1, 0, True)], [(3, 2, False), (7, 0, False)]])
   \<and> length (residuals \<lparr>residuals = [1, 2]\<rparr>) > 1
   \<and> isl (sieve_or \<lparr>residuals = [0]\<rparr> (OpStr ''4@2 & !1 | 3@2 & 7'') [[(3, 0, False)]])
   \<and> isl (sieve_and \<lparr>residuals = [0]\<rparr> (OpStr ''4@2 & !1 | 3@2 & 7'') [[(3, 0, False)]])"
proof -
  have conv: "to_sieve (OpStr ''4@2 & !1 | 3@2 & 7'') [[(3, 0, False)]]
     = Inr (\<lparr>residuals = [1, 2]\<rparr>,
            [[(3, 0, False)], [(4, 2, False), (1, 0, True)], [(3, 2, False), (7, 0, False)]])"
    by code_simp
  have len: "length (residuals \<lparr>residuals = [1, 2]\<rparr>) > 1" by simp
  from conv len complex_operand_raises [OF conv len, of "\<lparr>residuals = [0]\<rparr>"]
  show ?thesis by (intro conjI) simp_all
qed

text \<open>For a well-formed left operand the exception is the unbound \<^verbatim>\<open>push\<close>.\<close>

lemma complex_operand_unbound:
  "sieve_or \<lparr>residuals = [0]\<rparr> (OpSieve \<lparr>residuals = [1, 2]\<rparr>)
      [[(3, 0, False)], [(2, 0, False)], [(5, 0, False)]] = Inl UnboundLocalError
   \<and> sieve_and \<lparr>residuals = [0]\<rparr> (OpSieve \<lparr>residuals = [1, 2]\<rparr>)
      [[(3, 0, False)], [(2, 0, False)], [(5, 0, False)]] = Inl UnboundLocalError"
proof -
  have "sieve_or \<lparr>residuals = [0]\<rparr> (OpSieve \<lparr>residuals = [1, 2]\<rparr>)
      [[(3, 0, False)], [(2, 0, False)], [(5, 0, False)]] = Inl UnboundLocalError"
    by code_simp
  moreover have "sieve_and \<lparr>residuals = [0]\<rparr> (OpSieve \<lparr>residuals = [1, 2]\<rparr>)
      [[(3, 0, False)], [(2, 0, False)], [(5, 0, False)]] = Inl UnboundLocalError"
    by code_simp
  ultimately show ?thesis by blast
qed

section \<open>Printing and parsing again\<close>

text \<open>
  Claim C5 says that parsing the text of a reachable Sieve gives an equal sieve. The
  Sieve \<open>Sieve(3) | (2, 0, False)\<close> has the two groups at addresses 0 and 2 and prints
  as \<^verbatim>\<open>3@0 | 2@0\<close>. The parser turns that text into lists nested one level too
  deep, which is not the structure of the Sieve that was printed, and building a Sieve
  from the text raises \<open>IndexError\<close>.
\<close>

theorem roundtrip_union_fails:
  "sieve_or \<lparr>residuals = [0]\<rparr> (OpTuple 2 0 False) [[(3, 0, False)]]
     = Inr (\<lparr>residuals = [0, 2]\<rparr>, [[(3, 0, False)], [(2, 0, False)], [(2, 0, False)]])
   \<and> sieve_str \<lparr>residuals = [0, 2]\<rparr> [[(3, 0, False)], [(2, 0, False)], [(2, 0, False)]]
       = ''3@0 | 2@0''
   \<and> parse_sieve_str ''3@0 | 2@0''
       = Inr [Lst [Lst [Tup (3, 0, False)]], Lst [Lst [Tup (2, 0, False)]]]
   \<and> sieve_init (FromStr ''3@0 | 2@0'') [] = Inl IndexError"
proof -
  have "sieve_or \<lparr>residuals = [0]\<rparr> (OpTuple 2 0 False) [[(3, 0, False)]]
     = Inr (\<lparr>residuals = [0, 2]\<rparr>, [[(3, 0, False)], [(2, 0, False)], [(2, 0, False)]])"
    by code_simp
  moreover have
    "sieve_str \<lparr>residuals = [0, 2]\<rparr> [[(3, 0, False)], [(2, 0, False)], [(2, 0, False)]]
       = ''3@0 | 2@0''"
    by code_simp
  moreover have "parse_sieve_str ''3@0 | 2@0''
       = Inr [Lst [Lst [Tup (3, 0, False)]], Lst [Lst [Tup (2, 0, False)]]]"
    by code_simp
  moreover have "sieve_init (FromStr ''3@0 | 2@0'') [] = Inl IndexError"
    by code_simp
  ultimately show ?thesis by blast
qed

section \<open>The search loop and coprime moduli\<close>

text \<open>
  What the loop returns: the distance searched, that no candidate before the returned
  one passed the test, and that the returned candidate passes it when the loop did not
  run out.
\<close>

lemma seek_loop_spec:
  "seek_loop g0 g1 m s seek = (s', k) \<Longrightarrow>
   s' - k = s - seek \<and> seek \<le> k
   \<and> (\<forall>j. seek \<le> j \<and> j < k \<longrightarrow>
         \<not> (in_residual (s - seek + j) (m, s - seek + j, False) = in_residual (s - seek + j) g0
            \<and> in_residual (s - seek + j) g0 = in_residual (s - seek + j) g1))
   \<and> (k \<le> m \<longrightarrow>
         (in_residual s' (m, s', False) = in_residual s' g0
          \<and> in_residual s' g0 = in_residual s' g1))"
proof (induction g0 g1 m s seek rule: seek_loop.induct)
  case (1 g0 g1 m s seek)
  let ?agree = "in_residual s (m, s, False) = in_residual s g0
             \<and> in_residual s g0 = in_residual s g1"
  show ?case
  proof (cases "\<not> ?agree \<and> seek \<le> m")
    case True
    have "seek_loop g0 g1 m s seek = seek_loop g0 g1 m (s + 1) (seek + 1)"
      by (subst seek_loop.simps, rule if_P, rule True)
    then have rec: "seek_loop g0 g1 m (s + 1) (seek + 1) = (s', k)"
      using "1.prems" by simp
    note ih = "1.IH" [OF True rec]
    have shift: "s + 1 - (seek + 1) = s - seek" by simp
    from ih have a: "s' - k = s - seek" and b: "seek + 1 \<le> k" by simp_all
    have c: "\<not> (in_residual (s - seek + j) (m, s - seek + j, False) = in_residual (s - seek + j) g0
            \<and> in_residual (s - seek + j) g0 = in_residual (s - seek + j) g1)"
      if "seek \<le> j" "j < k" for j
    proof (cases "j = seek")
      case True
      then show ?thesis using \<open>\<not> ?agree \<and> seek \<le> m\<close> by simp
    next
      case False
      with that have "seek + 1 \<le> j \<and> j < k" by simp
      with ih show ?thesis unfolding shift by blast
    qed
    from ih have d: "k \<le> m \<longrightarrow>
         (in_residual s' (m, s', False) = in_residual s' g0
          \<and> in_residual s' g0 = in_residual s' g1)" by blast
    from a b c d show ?thesis by auto
  next
    case False
    have "seek_loop g0 g1 m s seek = (s, seek)"
      by (subst seek_loop.simps, rule if_not_P, rule False)
    then have eq: "s' = s" "k = seek" using "1.prems" by simp_all
    from False have "seek \<le> m \<longrightarrow> ?agree" by blast
    then show ?thesis unfolding eq by auto
  qed
qed

text \<open>
  When the two-residual branch raises. Membership in a residual has the modulus as a
  period, so a candidate at distance \<open>m\<close> from the start passes the test only if the
  start does. The test \<^verbatim>\<open>seek == m\<close> therefore holds in one case only: the product
  of the moduli is 0 and the first candidate is accepted by both residuals. With a
  positive product the branch always returns a residual, whether or not the two
  residuals have a common integer.
\<close>

lemma in_residual_period:
  "in_residual (x + fst g * k) g = in_residual x g"
proof -
  obtain m s n where g: "g = (m, s, n)" by (cases g)
  have "(x + m * k - s) mod m = (x - s) mod m"
  proof -
    have "x + m * k - s = (x - s) + m * k" by simp
    then show ?thesis by (simp only: mod_mult_self2)
  qed
  then show ?thesis by (simp add: g)
qed

lemma in_residual_self: "in_residual x (m, x, False)"
  by simp

lemma simplify_pair_raises_iff:
  "(simplify_pair g0 g1 = Inl e) =
     (e = ValueError \<and> fst g0 * fst g1 = 0
      \<and> in_residual (min (fst (snd g0)) (fst (snd g1))) g0
      \<and> in_residual (min (fst (snd g0)) (fst (snd g1))) g1)"
proof -
  define M where "M = fst g0 * fst g1"
  define s0 where "s0 = min (fst (snd g0)) (fst (snd g1))"
  let ?agree = "\<lambda>x. in_residual x (M, x, False) = in_residual x g0
                    \<and> in_residual x g0 = in_residual x g1"
  have agree: "?agree x = (in_residual x g0 \<and> in_residual x g1)" for x
    using in_residual_self [of x M] by blast
  obtain s' k where loop: "seek_loop g0 g1 M s0 0 = (s', k)"
    by (cases "seek_loop g0 g1 M s0 0")
  have res: "simplify_pair g0 g1 = (if k = M then Inl ValueError else Inr [(M, s', False)])"
    using loop by (simp add: simplify_pair_def M_def s0_def del: in_residual.simps)
  from seek_loop_spec [OF loop]
  have sk: "s' - k = s0" and k0: "0 \<le> k"
    and none: "\<And>j. 0 \<le> j \<Longrightarrow> j < k \<Longrightarrow> \<not> ?agree (s0 + j)"
    and found: "k \<le> M \<Longrightarrow> ?agree s'"
    by simp_all
  have "(k = M) = (M = 0 \<and> in_residual s0 g0 \<and> in_residual s0 g1)"
  proof
    assume kM: "k = M"
    then have s': "s' = s0 + M" using sk by simp
    from found kM have "?agree (s0 + M)" unfolding s' by simp
    then have "in_residual (s0 + M) g0 \<and> in_residual (s0 + M) g1"
      unfolding agree .
    moreover have "in_residual (s0 + M) g0 = in_residual s0 g0"
      unfolding M_def by (rule in_residual_period)
    moreover have "in_residual (s0 + M) g1 = in_residual s0 g1"
      using in_residual_period [of s0 g1 "fst g0"] by (simp add: M_def mult.commute)
    ultimately have a0: "in_residual s0 g0 \<and> in_residual s0 g1" by simp
    have "M = 0"
    proof (rule ccontr)
      assume "M \<noteq> 0"
      with k0 kM have "0 < k" by simp
      from none [of 0, OF _ this] have "\<not> ?agree s0" by simp
      with a0 show False unfolding agree by simp
    qed
    with a0 show "M = 0 \<and> in_residual s0 g0 \<and> in_residual s0 g1" by simp
  next
    assume a: "M = 0 \<and> in_residual s0 g0 \<and> in_residual s0 g1"
    then have "?agree s0" unfolding agree by simp
    then have "seek_loop g0 g1 M s0 0 = (s0, 0)"
      by (subst seek_loop.simps) (simp del: in_residual.simps)
    with loop a show "k = M" by simp
  qed
  then show ?thesis
    unfolding res M_def [symmetric] s0_def [symmetric] by auto
qed

lemma simplify_pair_positive_returns:
  "0 < fst g0 * fst g1 \<Longrightarrow> \<exists>s. simplify_pair g0 g1 = Inr [(fst g0 * fst g1, s, False)]"
proof -
  assume pos: "0 < fst g0 * fst g1"
  from pos have "fst g0 * fst g1 \<noteq> 0" by (rule less_imp_neq [THEN not_sym])
  then have "simplify_pair g0 g1 \<noteq> Inl e" for e
    unfolding simplify_pair_raises_iff [of g0 g1 e] by blast
  then obtain r where "simplify_pair g0 g1 = Inr r"
    by (cases "simplify_pair g0 g1") auto
  then show ?thesis
    by (auto simp: simplify_pair_def Let_def split: prod.splits if_splits)
qed

lemma crt_window:
  fixes m1 m2 s0 s1 s2 :: int
  assumes "0 < m1" "0 < m2" "coprime m1 m2"
  shows "\<exists>x. s0 \<le> x \<and> x < s0 + m1 * m2 \<and> m1 dvd (x - s1) \<and> m2 dvd (x - s2)"
proof -
  from assms(3) obtain u v where uv: "u * m1 + v * m2 = 1"
    using bezout_int [of m1 m2] by auto
  define x0 where "x0 = s1 * (v * m2) + s2 * (u * m1)"
  have "x0 - s1 = s1 * (v * m2 - 1) + s2 * (u * m1)"
    by (simp add: x0_def algebra_simps)
  also have "v * m2 - 1 = - (u * m1)" using uv by simp
  finally have "x0 - s1 = m1 * (u * (s2 - s1))" by (simp add: algebra_simps)
  then have d1: "m1 dvd (x0 - s1)" by simp
  have "x0 - s2 = s1 * (v * m2) + s2 * (u * m1 - 1)"
    by (simp add: x0_def algebra_simps)
  also have "u * m1 - 1 = - (v * m2)" using uv by simp
  finally have "x0 - s2 = m2 * (v * (s1 - s2))" by (simp add: algebra_simps)
  then have d2: "m2 dvd (x0 - s2)" by simp
  define M where "M = m1 * m2"
  have Mpos: "0 < M" using assms by (simp add: M_def)
  define x where "x = s0 + (x0 - s0) mod M"
  have lo: "s0 \<le> x" using Mpos by (simp add: x_def)
  have hi: "x < s0 + M" using Mpos by (simp add: x_def)
  have "x0 - x = (x0 - s0) - (x0 - s0) mod M" by (simp add: x_def)
  also have "\<dots> = M * ((x0 - s0) div M)"
    by (simp add: minus_mod_eq_mult_div)
  finally have Md: "M dvd (x0 - x)" by simp
  have "m1 dvd (x0 - x)" using Md by (auto simp: M_def dest: dvd_mult_left)
  then have "m1 dvd ((x0 - s1) - (x0 - x))" using d1 by (rule dvd_diff [rotated])
  then have e1: "m1 dvd (x - s1)" by (simp add: algebra_simps)
  have "m2 dvd (x0 - x)" using Md by (auto simp: M_def dest: dvd_mult_right)
  then have "m2 dvd ((x0 - s2) - (x0 - x))" using d2 by (rule dvd_diff [rotated])
  then have e2: "m2 dvd (x - s2)" by (simp add: algebra_simps)
  from lo hi e1 e2 show ?thesis unfolding M_def by blast
qed

lemma in_residual_plain:
  "m \<noteq> 0 \<Longrightarrow> in_residual v (m, s, False) = (m dvd (v - s))"
  using in_residual_dvd [of m v s False] by (simp del: in_residual.simps)

lemma simplify_pair_coprime:
  assumes pos1: "0 < m1" and pos2: "0 < m2" and cop: "coprime m1 m2"
  shows "\<exists>s. simplify_pair (m1, s1, False) (m2, s2, False) = Inr [(m1 * m2, s, False)]
           \<and> (\<forall>v. in_residual v (m1 * m2, s, False)
                    = (in_residual v (m1, s1, False) \<and> in_residual v (m2, s2, False)))"
proof -
  define M where "M = m1 * m2"
  define s0 where "s0 = min s1 s2"
  have Mpos: "0 < M" using pos1 pos2 by (simp add: M_def)
  have r1: "in_residual v (m1, s1, False) = (m1 dvd (v - s1))" for v
    using pos1 by (intro in_residual_plain) simp
  have r2: "in_residual v (m2, s2, False) = (m2 dvd (v - s2))" for v
    using pos2 by (intro in_residual_plain) simp
  have rM: "in_residual v (M, s, False) = (M dvd (v - s))" for v s
    using Mpos by (intro in_residual_plain) simp
  have agree: "(in_residual x (M, x, False) = in_residual x (m1, s1, False)
               \<and> in_residual x (m1, s1, False) = in_residual x (m2, s2, False))
             = (m1 dvd (x - s1) \<and> m2 dvd (x - s2))" for x
    unfolding r1 r2 rM by auto
  obtain s' k where loop: "seek_loop (m1, s1, False) (m2, s2, False) M s0 0 = (s', k)"
    by (cases "seek_loop (m1, s1, False) (m2, s2, False) M s0 0")
  from seek_loop_spec [OF loop]
  have sk: "s' - k = s0" and k0: "0 \<le> k"
    and none: "\<And>j. 0 \<le> j \<Longrightarrow> j < k \<Longrightarrow> \<not> (m1 dvd (s0 + j - s1) \<and> m2 dvd (s0 + j - s2))"
    and found: "k \<le> M \<Longrightarrow> m1 dvd (s' - s1) \<and> m2 dvd (s' - s2)"
    unfolding agree by simp_all
  from crt_window [OF pos1 pos2 cop, of s0 s1 s2]
  obtain x where x: "s0 \<le> x" "x < s0 + M" "m1 dvd (x - s1)" "m2 dvd (x - s2)"
    unfolding M_def by blast
  have "\<not> (x - s0 < k)"
  proof
    assume "x - s0 < k"
    with none [of "x - s0"] x show False by simp
  qed
  with x have kM: "k < M" by simp
  with found have d: "m1 dvd (s' - s1)" "m2 dvd (s' - s2)" by simp_all
  have result: "simplify_pair (m1, s1, False) (m2, s2, False) = Inr [(M, s', False)]"
    using loop kM by (simp add: simplify_pair_def M_def s0_def del: in_residual.simps)
  have "in_residual v (M, s', False)
          = (in_residual v (m1, s1, False) \<and> in_residual v (m2, s2, False))" for v
  proof -
    have "(M dvd (v - s')) = (m1 dvd (v - s1) \<and> m2 dvd (v - s2))"
    proof
      assume Md: "M dvd (v - s')"
      then have v1: "m1 dvd (v - s')" and v2: "m2 dvd (v - s')"
        by (auto simp: M_def dest: dvd_mult_left dvd_mult_right)
      have "m1 dvd (v - s1)" using dvd_add [OF v1 d(1)] by simp
      moreover have "m2 dvd (v - s2)" using dvd_add [OF v2 d(2)] by simp
      ultimately show "m1 dvd (v - s1) \<and> m2 dvd (v - s2)" ..
    next
      assume both: "m1 dvd (v - s1) \<and> m2 dvd (v - s2)"
      have "m1 dvd (v - s')" using dvd_diff [OF conjunct1 [OF both] d(1)] by simp
      moreover have "m2 dvd (v - s')" using dvd_diff [OF conjunct2 [OF both] d(2)] by simp
      ultimately show "M dvd (v - s')" unfolding M_def using cop by (rule divides_mult)
    qed
    then show ?thesis unfolding r1 r2 rM .
  qed
  with result show ?thesis unfolding M_def by blast
qed

lemma simplify_group_while: "simplify_group grp = while_group grp"
proof (cases grp rule: simplify_group.cases)
  case (2 a b)
  show ?thesis
  proof (cases "simplify_pair a b")
    case (Inl e)
    with 2 show ?thesis by simp
  next
    case (Inr simple)
    then obtain c where "simple = [c]"
      by (auto simp: simplify_pair_def Let_def split: prod.splits if_splits)
    with Inr 2 show ?thesis by simp
  qed
qed simp_all

lemma while_group_plain:
  "plain_group grp \<Longrightarrow>
   \<exists>s. while_group grp = Inr [(prod_list (map fst grp), s, False)]
        \<and> (\<forall>v. in_residual v (prod_list (map fst grp), s, False) = in_group v grp)"
proof (induction grp rule: while_group.induct [case_names pair nil single])
  case (pair a b end')
  obtain m1 s1 n1 where a: "a = (m1, s1, n1)" by (cases a)
  obtain m2 s2 n2 where b: "b = (m2, s2, n2)" by (cases b)
  from pair.prems have n: "\<not> n1" "\<not> n2" and pos: "0 < m1" "0 < m2"
    and cop: "coprime m1 m2"
    and rest1: "\<forall>k\<in>set (map fst end'). coprime m1 k"
    and rest2: "\<forall>k\<in>set (map fst end'). coprime m2 k"
    and rest: "\<forall>r\<in>set end'. 0 < fst r \<and> \<not> snd (snd r)" "pairwise_coprime (map fst end')"
    by (auto simp: plain_group_def a b)
  from simplify_pair_coprime [OF pos cop, of s1 s2]
  obtain s where pair: "simplify_pair a b = Inr [(m1 * m2, s, False)]"
    and sem: "\<And>v. in_residual v (m1 * m2, s, False) = (in_residual v a \<and> in_residual v b)"
    using n unfolding a b by auto
  have "plain_group ([(m1 * m2, s, False)] @ end')"
    using pos rest rest1 rest2 by (auto simp: plain_group_def)
  from pair.IH [OF pair this]
  obtain s' where w: "while_group ((m1 * m2, s, False) # end')
                        = Inr [(m1 * m2 * prod_list (map fst end'), s', False)]"
    and wsem: "\<And>v. in_residual v (m1 * m2 * prod_list (map fst end'), s', False)
                  = in_group v ((m1 * m2, s, False) # end')"
    by auto
  have "while_group (a # b # end') = Inr [(prod_list (map fst (a # b # end')), s', False)]"
    using pair w by (simp add: a b mult.assoc)
  moreover have "in_residual v (prod_list (map fst (a # b # end')), s', False)
                   = in_group v (a # b # end')" for v
    using wsem [of v] sem [of v]
    by (simp add: a b mult.assoc in_group_def del: in_residual.simps)
  ultimately show ?case by blast
next
  case nil
  then show ?case by (simp add: plain_group_def)
next
  case (single x)
  obtain m s n where x: "x = (m, s, n)" by (cases x)
  with single have "\<not> n" by (simp add: plain_group_def)
  then show ?case by (simp add: x in_group_def del: in_residual.simps)
qed

lemma first_simplified_plain:
  assumes "plain_group grp"
  shows "\<exists>m s. first_simplified grp = Inr (m, s, False) \<and> 0 < m
           \<and> (\<forall>v. in_residual v (m, s, False) = in_group v grp)"
proof -
  from while_group_plain [OF assms]
  obtain s where w: "while_group grp = Inr [(prod_list (map fst grp), s, False)]"
    and sem: "\<forall>v. in_residual v (prod_list (map fst grp), s, False) = in_group v grp"
    by blast
  have "(\<forall>r\<in>set g. 0 < fst r) \<Longrightarrow> 0 < prod_list (map fst g)" for g :: "residual list"
    by (induction g) auto
  then have "0 < prod_list (map fst grp)"
    using assms by (simp add: plain_group_def)
  moreover have "first_simplified grp = Inr (prod_list (map fst grp), s, False)"
    using w by (simp add: first_simplified_def simplify_group_while)
  ultimately show ?thesis using sem by blast
qed

section \<open>Printing and parsing one residual\<close>

text \<open>
  \<open>int(str(i))\<close> is \<open>i\<close>, and the text of a modulus, an at sign and a shift parses to
  the non-negated residual with that modulus and shift.
\<close>

lemma of_char_digit:
  "n < 10 \<Longrightarrow> (of_char (char_of (48 + n :: nat)) :: nat) = 48 + n"
  by (simp add: of_char_of)

lemma digits_of_is_digit: "c \<in> set (digits_of n) \<Longrightarrow> is_digit c"
proof (induction n arbitrary: c rule: digits_of.induct)
  case (1 n)
  show ?case
  proof (cases "n < 10")
    case True
    with "1.prems" have "c = char_of (48 + n)"
      by (subst (asm) digits_of.simps) simp
    with True show ?thesis by (simp add: is_digit_def of_char_digit)
  next
    case False
    have "digits_of n = digits_of (n div 10) @ [char_of (48 + n mod 10)]"
      using False by (subst digits_of.simps) simp
    with "1.prems" have "c \<in> set (digits_of (n div 10)) \<or> c = char_of (48 + n mod 10)"
      by auto
    then show ?thesis
    proof
      assume "c \<in> set (digits_of (n div 10))"
      with "1.IH" [OF False] show ?thesis .
    next
      assume "c = char_of (48 + n mod 10)"
      then show ?thesis by (simp add: is_digit_def of_char_digit)
    qed
  qed
qed

lemma digits_of_nonempty: "digits_of n \<noteq> []"
  by (subst digits_of.simps) simp

lemma digits_val_snoc:
  "is_digit c \<Longrightarrow> digits_val (xs @ [c]) = 10 * digits_val xs + (of_char c - 48)"
  by (simp add: digits_val_def)

lemma digits_val_digits_of: "digits_val (digits_of n) = int n"
proof (induction n rule: digits_of.induct)
  case (1 n)
  show ?case
  proof (cases "n < 10")
    case True
    then have d: "digits_of n = [char_of (48 + n)]"
      by (subst digits_of.simps) simp
    have "is_digit (char_of (48 + n))"
      using True by (simp add: is_digit_def of_char_digit)
    moreover have "(of_char (char_of (48 + n)) :: int) = int (48 + n)"
      using of_char_digit [OF True] by (metis of_nat_of_char)
    ultimately show ?thesis by (simp add: d digits_val_def)
  next
    case False
    then have d: "digits_of n = digits_of (n div 10) @ [char_of (48 + n mod 10)]"
      by (subst digits_of.simps) simp
    have lt: "n mod 10 < 10" by simp
    have dig: "is_digit (char_of (48 + n mod 10))"
      by (simp add: is_digit_def of_char_digit)
    have val: "(of_char (char_of (48 + n mod 10)) :: int) = int (48 + n mod 10)"
      using of_char_digit [OF lt] by (metis of_nat_of_char)
    have "digits_val (digits_of n) = 10 * int (n div 10) + int (n mod 10)"
      unfolding d digits_val_snoc [OF dig] "1.IH" [OF False] val by simp
    also have "\<dots> = int n"
      by (metis mult_div_mod_eq of_nat_add of_nat_mult of_nat_numeral)
    finally show ?thesis .
  qed
qed

lemma digits_ok_all_digits:
  "xs \<noteq> [] \<Longrightarrow> \<forall>c\<in>set xs. is_digit c \<Longrightarrow> digits_ok xs"
proof (induction xs rule: digits_ok.induct)
  case (3 c d cs)
  from "3.prems" have "is_digit d" by simp
  then have "d \<noteq> CHR ''_''" by (auto simp: is_digit_def)
  with 3 show ?case by simp
qed simp_all

lemma is_digit_not_special:
  assumes "is_digit c"
  shows "\<not> is_space c" "c \<noteq> CHR '' ''" "c \<noteq> CHR 0x0A" "c \<noteq> CHR ''@''" "c \<noteq> CHR ''|''"
    "c \<noteq> CHR ''&''" "c \<noteq> CHR ''!''" "c \<noteq> CHR ''-''" "c \<noteq> CHR ''+''"
  using assms by (auto simp: is_digit_def is_space_def Let_def)

lemma minus_not_special:
  "\<not> is_space CHR ''-''" "\<not> is_space CHR ''@''"
  by (simp_all add: is_space_def)

lemma strip_id:
  assumes "s \<noteq> []" "\<not> is_space (hd s)" "\<not> is_space (last s)"
  shows "strip s = s"
proof -
  have a: "dropWhile is_space s = s"
    using assms by (cases s) simp_all
  have "rev s \<noteq> []" "\<not> is_space (hd (rev s))"
    using assms by (simp_all add: hd_rev)
  then have b: "dropWhile is_space (rev s) = rev s"
    by (cases "rev s") simp_all
  show ?thesis by (simp add: strip_def a b)
qed

lemma py_str_shape:
  "py_str i \<noteq> []"
  "\<forall>c\<in>set (py_str i). is_digit c \<or> c = CHR ''-''"
  "is_digit (last (py_str i))"
  "is_digit (hd (py_str i)) \<or> hd (py_str i) = CHR ''-''"
proof -
  show ne: "py_str i \<noteq> []" by (simp add: py_str_def digits_of_nonempty)
  show all: "\<forall>c\<in>set (py_str i). is_digit c \<or> c = CHR ''-''"
    by (auto simp: py_str_def dest: digits_of_is_digit)
  have "last (digits_of n) \<in> set (digits_of n)" for n
    using digits_of_nonempty by simp
  then have "is_digit (last (digits_of n))" for n
    by (rule digits_of_is_digit)
  then show "is_digit (last (py_str i))"
    by (simp add: py_str_def digits_of_nonempty)
  have "hd (py_str i) \<in> set (py_str i)" using ne by simp
  with all show "is_digit (hd (py_str i)) \<or> hd (py_str i) = CHR ''-''" by blast
qed

lemma py_int_py_str: "py_int (py_str i) = Inr i"
proof -
  have "\<not> is_space (hd (py_str i))"
    using py_str_shape(4) [of i] is_digit_not_special(1) [of "hd (py_str i)"]
      minus_not_special(1) by metis
  moreover have "\<not> is_space (last (py_str i))"
    using py_str_shape(3) [of i] by (rule is_digit_not_special(1))
  ultimately have st: "strip (py_str i) = py_str i"
    using py_str_shape(1) [of i] by (intro strip_id)
  show ?thesis
  proof (cases "i < 0")
    case True
    then have s: "py_str i = CHR ''-'' # digits_of (nat (- i))" by (simp add: py_str_def)
    have "digits_ok (digits_of (nat (- i)))"
      by (intro digits_ok_all_digits digits_of_nonempty ballI digits_of_is_digit)
    moreover have "strip (CHR ''-'' # digits_of (nat (- i))) = CHR ''-'' # digits_of (nat (- i))"
      using st unfolding s .
    ultimately show ?thesis
      using True by (simp add: py_int_def s digits_val_digits_of)
  next
    case False
    then have s: "py_str i = digits_of (nat i)" by (simp add: py_str_def)
    obtain c cs where cs: "digits_of (nat i) = c # cs"
      using digits_of_nonempty [of "nat i"] by (cases "digits_of (nat i)") auto
    have "is_digit c" using digits_of_is_digit [of c "nat i"] cs by simp
    then have c: "c \<noteq> CHR ''-''" "c \<noteq> CHR ''+''"
      by (simp_all add: is_digit_not_special)
    have ok: "digits_ok (c # cs)"
      unfolding cs [symmetric]
      by (intro digits_ok_all_digits digits_of_nonempty ballI digits_of_is_digit)
    have "digits_val (c # cs) = i"
      using digits_val_digits_of [of "nat i"] False by (simp add: cs)
    moreover have "strip (c # cs) = c # cs"
      using st unfolding s cs .
    ultimately show ?thesis
      using c ok by (simp add: py_int_def s cs)
  qed
qed

lemma split_on_no_sep: "sep \<notin> set s \<Longrightarrow> split_on sep s = [s]"
  by (induction s) auto

lemma split_on_append:
  "sep \<notin> set a \<Longrightarrow> split_on sep (a @ sep # b) = a # split_on sep b"
  by (induction a) auto

lemma py_str_chars:
  "CHR ''@'' \<notin> set (py_str i)" "CHR ''|'' \<notin> set (py_str i)" "CHR ''&'' \<notin> set (py_str i)"
  "CHR '' '' \<notin> set (py_str i)" "CHR 0x0A \<notin> set (py_str i)"
  using py_str_shape(2) [of i] is_digit_not_special by fastforce+

lemma residual_text_clean:
  "clean_sieve_str (py_str x @ CHR ''@'' # py_str y) = py_str x @ CHR ''@'' # py_str y"
proof -
  let ?t = "py_str x @ CHR ''@'' # py_str y"
  have ne: "?t \<noteq> []" by simp
  have "hd ?t = hd (py_str x)" using py_str_shape(1) [of x] by simp
  then have h: "\<not> is_space (hd ?t)"
    using py_str_shape(4) [of x] is_digit_not_special(1) [of "hd (py_str x)"]
      minus_not_special(1) by metis
  have "last ?t = last (py_str y)" using py_str_shape(1) [of y] by simp
  then have l: "\<not> is_space (last ?t)"
    using py_str_shape(3) [of y] is_digit_not_special(1) [of "last (py_str y)"] by simp
  have st: "strip ?t = ?t" using ne h l by (rule strip_id)
  have "filter (\<lambda>c. c \<noteq> CHR '' '' \<and> c \<noteq> CHR 0x0A) ?t = ?t"
    using py_str_chars(4,5) [of x] py_str_chars(4,5) [of y]
    by (intro iffD2 [OF filter_id_conv]) auto
  then show ?thesis unfolding clean_sieve_str_def st .
qed

lemma parse_residual_text:
  "parse_residual (py_str x @ CHR ''@'' # py_str y) = Inr (x, y, False)"
proof -
  let ?t = "py_str x @ CHR ''@'' # py_str y"
  obtain c cs where px: "py_str x = c # cs"
    using py_str_shape(1) [of x] by (cases "py_str x") auto
  have "is_digit c \<or> c = CHR ''-''" using py_str_shape(4) [of x] px by simp
  then have c: "c \<noteq> CHR ''!''" using is_digit_not_special(7) [of c] by auto
  have t: "?t = c # (cs @ CHR ''@'' # py_str y)" by (simp add: px)
  have sp: "split_on CHR ''@'' ?t = [py_str x, py_str y]"
    using split_on_append [OF py_str_chars(1) [of x], of "py_str y"]
      split_on_no_sep [OF py_str_chars(1) [of y]] by simp
  have sp': "split_on CHR ''@'' (c # (cs @ CHR ''@'' # py_str y)) = [c # cs, py_str y]"
    using sp unfolding px by simp
  have cl: "clean_sieve_str ?t = c # (cs @ CHR ''@'' # py_str y)"
    using residual_text_clean [of x y] t by simp
  have ix: "py_int (c # cs) = Inr x" using py_int_py_str [of x] px by simp
  show ?thesis
    unfolding parse_residual_def cl
    using c sp' ix py_int_py_str [of y] by simp
qed

lemma parse_sieve_str_text:
  "parse_sieve_str (py_str x @ CHR ''@'' # py_str y) = Inr [Lst [Tup (x, y, False)]]"
proof -
  let ?t = "py_str x @ CHR ''@'' # py_str y"
  have no: "CHR ''|'' \<notin> set ?t" "CHR ''&'' \<notin> set ?t"
    using py_str_chars(2,3) [of x] py_str_chars(2,3) [of y] by simp_all
  show ?thesis
    by (subst parse_sieve_str.simps)
       (simp add: residual_text_clean py_str_chars parse_residual_text Let_def)
qed

lemma sieve_init_text:
  "sieve_init (FromStr (py_str x @ CHR ''@'' # py_str y)) h
     = (if x = 0 then Inl ZeroDivisionError
        else Inr (\<lparr>residuals = [length h]\<rparr>, h @ [[(x, y mod x, False)]]))"
  by (simp add: parse_sieve_str_text norm_parsed_def norm_residual_def alloc_def)

section \<open>The simplified Sieve\<close>

text \<open>
  The union of freshly built one-residual Sieves: each step appends one new group to
  the heap and to the result, and leaves the groups that exist unchanged.
\<close>

lemma sieve_or_simple:
  assumes self: "\<forall>a\<in>set (residuals self). a < length h
                    \<and> (\<forall>r\<in>set (h ! a). norm_residual r = Inr r)"
    and b: "h ! b = [r]"
  shows "sieve_or self (OpSieve \<lparr>residuals = [b]\<rparr>) h
           = Inr (\<lparr>residuals = residuals self @ [length h]\<rparr>, h @ [[r]])"
proof -
  have push: "push_of \<lparr>residuals = [b]\<rparr> h = Inr (Some [r])"
    by (simp add: push_of_def stype_of_def b)
  have copy: "sieve_init (FromSieve self) h = Inr (\<lparr>residuals = residuals self\<rparr>, h)"
    using norm_cells_id [OF self] by simp
  show ?thesis by (simp add: sieve_or_def push copy alloc_def del: sieve_init.simps)
qed

lemma union_all_spec:
  assumes "\<forall>a\<in>set (residuals simple). a < length h
              \<and> (\<forall>r\<in>set (h ! a). norm_residual r = Inr r)"
    and "\<forall>sv\<in>set svs. \<exists>b r. sv = \<lparr>residuals = [b]\<rparr> \<and> b < length h \<and> h ! b = [r]
              \<and> norm_residual r = Inr r"
  shows "\<exists>s' ext. union_all simple svs h = Inr (s', h @ ext)
           \<and> map ((!) (h @ ext)) (residuals s')
               = map ((!) h) (residuals simple) @ map (\<lambda>sv. h ! hd (residuals sv)) svs"
  using assms
proof (induction svs arbitrary: simple h)
  case Nil
  have "union_all simple [] h = Inr (simple, h @ [])" by simp
  then show ?case by (intro exI [of _ simple] exI [of _ "[]"]) simp
next
  case (Cons sv svs)
  from Cons.prems(2) obtain b r where sv: "sv = \<lparr>residuals = [b]\<rparr>" and bl: "b < length h"
    and hb: "h ! b = [r]" and nr: "norm_residual r = Inr r"
    by auto
  define simple' where "simple' = \<lparr>residuals = residuals simple @ [length h]\<rparr>"
  define h1 where "h1 = h @ [[r]]"
  have step: "sieve_or simple (OpSieve sv) h = Inr (simple', h1)"
    unfolding sv simple'_def h1_def by (rule sieve_or_simple [OF Cons.prems(1) hb])
  have old: "h1 ! a = h ! a" if "a < length h" for a
    using that by (simp add: h1_def nth_append)
  have p1: "\<forall>a\<in>set (residuals simple'). a < length h1
              \<and> (\<forall>r\<in>set (h1 ! a). norm_residual r = Inr r)"
  proof
    fix a assume "a \<in> set (residuals simple')"
    then have "a \<in> set (residuals simple) \<or> a = length h" by (auto simp: simple'_def)
    then show "a < length h1 \<and> (\<forall>r\<in>set (h1 ! a). norm_residual r = Inr r)"
    proof
      assume "a \<in> set (residuals simple)"
      with Cons.prems(1) have "a < length h" "\<forall>r\<in>set (h ! a). norm_residual r = Inr r"
        by auto
      then show ?thesis using old [of a] by (simp add: h1_def)
    next
      assume "a = length h"
      then show ?thesis using nr by (simp add: h1_def)
    qed
  qed
  have p2: "\<forall>sv\<in>set svs. \<exists>b r. sv = \<lparr>residuals = [b]\<rparr> \<and> b < length h1 \<and> h1 ! b = [r]
              \<and> norm_residual r = Inr r"
  proof
    fix t assume "t \<in> set svs"
    with Cons.prems(2) obtain b' r' where "t = \<lparr>residuals = [b']\<rparr>" "b' < length h"
      "h ! b' = [r']" "norm_residual r' = Inr r'"
      by force
    then show "\<exists>b r. t = \<lparr>residuals = [b]\<rparr> \<and> b < length h1 \<and> h1 ! b = [r]
              \<and> norm_residual r = Inr r"
      using old [of b'] by (intro exI [of _ b'] exI [of _ r']) (simp add: h1_def)
  qed
  from Cons.IH [OF p1 p2] obtain s' ext where
    u: "union_all simple' svs h1 = Inr (s', h1 @ ext)"
    and m: "map ((!) (h1 @ ext)) (residuals s')
              = map ((!) h1) (residuals simple') @ map (\<lambda>sv. h1 ! hd (residuals sv)) svs"
    by blast
  have a1: "map ((!) h1) (residuals simple') = map ((!) h) (residuals simple) @ [[r]]"
    using Cons.prems(1) by (auto simp: simple'_def h1_def nth_append)
  have a2: "map (\<lambda>sv. h1 ! hd (residuals sv)) svs = map (\<lambda>sv. h ! hd (residuals sv)) svs"
  proof (rule map_cong [OF refl])
    fix t assume "t \<in> set svs"
    with Cons.prems(2) obtain b' where "t = \<lparr>residuals = [b']\<rparr>" "b' < length h" by force
    then show "h1 ! hd (residuals t) = h ! hd (residuals t)" using old [of b'] by simp
  qed
  have "union_all simple (sv # svs) h = Inr (s', h @ ([[r]] @ ext))"
    using step u by (simp add: h1_def)
  moreover have "map ((!) (h @ ([[r]] @ ext))) (residuals s')
      = map ((!) h) (residuals simple) @ map (\<lambda>sv. h ! hd (residuals sv)) (sv # svs)"
    using m unfolding a1 a2 by (simp add: h1_def sv hb)
  ultimately show ?case by blast
qed

lemma init_all_spec:
  "init_all rs h = Inr (svs, h1) \<Longrightarrow>
   (\<forall>r\<in>set rs. fst r \<noteq> 0) \<and> (\<exists>ext. h1 = h @ ext)
   \<and> list_all2 (\<lambda>sv r. \<exists>b. sv = \<lparr>residuals = [b]\<rparr> \<and> b < length h1
                    \<and> h1 ! b = [(fst r, fst (snd r) mod fst r, False)]) svs rs"
proof (induction rs arbitrary: h svs h1)
  case Nil
  then show ?case by simp
next
  case (Cons r rs)
  obtain x y n where r: "r = (x, y, n)" by (cases r)
  from Cons.prems have x0: "x \<noteq> 0"
    by (auto simp: r sieve_init_text simp del: sieve_init.simps split: if_splits)
  define h' where "h' = h @ [[(x, y mod x, False)]]"
  from Cons.prems x0 obtain svs' where svs: "svs = \<lparr>residuals = [length h]\<rparr> # svs'"
    and rec: "init_all rs h' = Inr (svs', h1)"
    by (auto simp: r sieve_init_text h'_def simp del: sieve_init.simps split: sum.splits)
  from Cons.IH [OF rec] obtain ext where nz: "\<forall>r\<in>set rs. fst r \<noteq> 0"
    and ext: "h1 = h' @ ext"
    and all2: "list_all2 (\<lambda>sv r. \<exists>b. sv = \<lparr>residuals = [b]\<rparr> \<and> b < length h1
                    \<and> h1 ! b = [(fst r, fst (snd r) mod fst r, False)]) svs' rs"
    by blast
  have "length h < length h1" "h1 ! length h = [(x, y mod x, False)]"
    by (simp_all add: ext h'_def nth_append)
  then show ?case
    using nz all2 x0 by (auto simp: svs r ext h'_def)
qed

lemma init_all_succeeds:
  "\<forall>r\<in>set rs. fst r \<noteq> 0 \<Longrightarrow> \<exists>svs h1. init_all rs h = Inr (svs, h1) \<and> length svs = length rs"
proof (induction rs arbitrary: h)
  case Nil
  then show ?case by simp
next
  case (Cons r rs)
  obtain x y n where r: "r = (x, y, n)" by (cases r)
  from Cons.prems have x0: "x \<noteq> 0" by (simp add: r)
  from Cons.IH [of "h @ [[(x, y mod x, False)]]"] Cons.prems
  obtain svs h1 where "init_all rs (h @ [[(x, y mod x, False)]]) = Inr (svs, h1)"
    "length svs = length rs" by auto
  then show ?case
    using x0 by (simp add: r sieve_init_text del: sieve_init.simps)
qed

lemma in_residual_mod_shift:
  "in_residual v (m, s mod m, n) = in_residual v (m, s, n)"
  by (simp add: mod_diff_right_eq)

lemma list_all2_set_right:
  "list_all2 P xs ys \<Longrightarrow> x \<in> set xs \<Longrightarrow> \<exists>y\<in>set ys. P x y"
  by (induction rule: list_all2_induct) auto

lemma union_after_init:
  assumes init: "init_all rs h = Inr (simple # rest, h1)"
  shows "\<exists>s' ext. union_all simple rest h1 = Inr (s', h1 @ ext)
           \<and> map ((!) (h1 @ ext)) (residuals s')
               = map (\<lambda>r. [(fst r, fst (snd r) mod fst r, False)]) rs"
proof -
  let ?normed = "\<lambda>r :: residual. [(fst r, fst (snd r) mod fst r, False)]"
  let ?P = "\<lambda>sv r. \<exists>b. sv = \<lparr>residuals = [b]\<rparr> \<and> b < length h1 \<and> h1 ! b = ?normed r"
  from init_all_spec [OF init] have nz: "\<forall>r\<in>set rs. fst r \<noteq> 0"
    and all2: "list_all2 ?P (simple # rest) rs"
    by blast+
  from all2 obtain r0 rs' where rs_eq: "rs = r0 # rs'" and p0: "?P simple r0"
    and prest: "list_all2 ?P rest rs'"
    by (cases rs) auto
  from p0 obtain b0 where simple: "simple = \<lparr>residuals = [b0]\<rparr>" and b0: "b0 < length h1"
    and c0: "h1 ! b0 = ?normed r0" by blast
  have r0: "fst r0 \<noteq> 0" using nz rs_eq by simp
  have pre1: "\<forall>a\<in>set (residuals simple). a < length h1
                \<and> (\<forall>r\<in>set (h1 ! a). norm_residual r = Inr r)"
    using b0 c0 r0 by (simp add: simple norm_residual_normed)
  have pre2: "\<forall>sv\<in>set rest. \<exists>b r. sv = \<lparr>residuals = [b]\<rparr> \<and> b < length h1 \<and> h1 ! b = [r]
                \<and> norm_residual r = Inr r"
  proof
    fix sv assume "sv \<in> set rest"
    from list_all2_set_right [OF prest this] obtain r b where r: "r \<in> set rs'"
      and sv: "sv = \<lparr>residuals = [b]\<rparr>" "b < length h1" "h1 ! b = ?normed r"
      by blast
    from r nz rs_eq have "fst r \<noteq> 0" by simp
    then have "norm_residual (fst r, fst (snd r) mod fst r, False)
                 = Inr (fst r, fst (snd r) mod fst r, False)"
      by (rule norm_residual_normed)
    with sv show "\<exists>b r. sv = \<lparr>residuals = [b]\<rparr> \<and> b < length h1 \<and> h1 ! b = [r]
                \<and> norm_residual r = Inr r"
      by blast
  qed
  from union_all_spec [OF pre1 pre2] obtain s' ext where
    un: "union_all simple rest h1 = Inr (s', h1 @ ext)"
    and m: "map ((!) (h1 @ ext)) (residuals s')
              = map ((!) h1) (residuals simple) @ map (\<lambda>sv. h1 ! hd (residuals sv)) rest"
    by blast
  have "map (\<lambda>sv. h1 ! hd (residuals sv)) rest = map ?normed rs'"
    using prest by (induction rule: list_all2_induct) auto
  with m have "map ((!) (h1 @ ext)) (residuals s') = map ?normed rs"
    by (simp add: simple c0 rs_eq)
  with un show ?thesis by blast
qed

lemma simplified_result:
  assumes "simplified self h = Inr (s', h')"
  shows "\<exists>rs. collect (map (\<lambda>a. first_simplified (h ! a)) (residuals self)) = Inr rs
           \<and> map ((!) h') (residuals s')
               = map (\<lambda>r. [(fst r, fst (snd r) mod fst r, False)]) rs"
proof -
  from assms obtain rs where
    rs: "collect (map (\<lambda>a. first_simplified (h ! a)) (residuals self)) = Inr rs"
    by (auto simp: simplified_def split: sum.splits)
  from assms rs obtain simple rest h1 where
    init: "init_all rs h = Inr (simple # rest, h1)"
    and un: "union_all simple rest h1 = Inr (s', h')"
    by (auto simp: simplified_def split: sum.splits prod.splits list.splits)
  from union_after_init [OF init] un rs show ?thesis by auto
qed

lemma list_ex_all2:
  "list_all2 (\<lambda>x y. P x = Q y) xs ys \<Longrightarrow> list_ex P xs = list_ex Q ys"
  by (induction rule: list_all2_induct) auto

lemma collect_succeeds:
  "\<forall>x\<in>set xs. \<exists>y. f x = Inr y \<Longrightarrow> \<exists>ys. collect (map f xs) = Inr ys"
  by (induction xs) auto

lemma simplified_succeeds:
  assumes ne: "residuals self \<noteq> []"
    and plain: "\<forall>a\<in>set (residuals self). plain_group (h ! a)"
  shows "\<exists>s' h'. simplified self h = Inr (s', h')"
proof -
  have "\<forall>a\<in>set (residuals self). \<exists>r. first_simplified (h ! a) = Inr r"
  proof
    fix a assume "a \<in> set (residuals self)"
    with plain have "plain_group (h ! a)" by (rule bspec)
    from first_simplified_plain [OF this]
    show "\<exists>r. first_simplified (h ! a) = Inr r" by blast
  qed
  from collect_succeeds [OF this] obtain rs where
    rs: "collect (map (\<lambda>a. first_simplified (h ! a)) (residuals self)) = Inr rs"
    by blast
  from collect_all2 [OF rs]
  have all2: "list_all2 (\<lambda>a r. first_simplified (h ! a) = Inr r) (residuals self) rs" .
  have nz: "\<forall>r\<in>set rs. fst r \<noteq> 0"
  proof
    fix r assume "r \<in> set rs"
    then obtain i where i: "i < length rs" "rs ! i = r" by (auto simp: in_set_conv_nth)
    with all2 have a: "residuals self ! i \<in> set (residuals self)"
      and f: "first_simplified (h ! (residuals self ! i)) = Inr r"
      by (auto simp: list_all2_conv_all_nth)
    from plain a have "plain_group (h ! (residuals self ! i))" by (rule bspec)
    from first_simplified_plain [OF this] obtain m s where
      "first_simplified (h ! (residuals self ! i)) = Inr (m, s, False)" "0 < m" by blast
    with f show "fst r \<noteq> 0" by auto
  qed
  from init_all_succeeds [OF nz, of h] obtain svs h1 where
    init: "init_all rs h = Inr (svs, h1)" and len: "length svs = length rs"
    by blast
  have "length rs = length (residuals self)"
    using all2 by (simp add: list_all2_lengthD)
  with ne len have "svs \<noteq> []" by auto
  then obtain simple rest where svs: "svs = simple # rest"
    by (cases svs) auto
  from union_after_init [OF init [unfolded svs]] obtain s' ext where
    un: "union_all simple rest h1 = Inr (s', h1 @ ext)" by blast
  have "simplified self h = Inr (s', h1 @ ext)"
    unfolding simplified_def rs using init un by (simp add: svs)
  then show ?thesis by blast
qed

text \<open>
  Claim C7, as amended. Whenever \<^verbatim>\<open>simplified\<close> returns, every group of the result
  holds exactly one residual. When every group of the Sieve is a group of non-negated
  residuals with positive, pairwise coprime moduli, the result accepts exactly the
  integers that the Sieve accepts (and by \<open>simplified_succeeds\<close> the property does
  return on such a Sieve).
\<close>

theorem simplified_singletons_and_equal:
  assumes "simplified self h = Inr (s', h')"
  shows "(\<forall>a\<in>set (residuals s'). length (h' ! a) = 1)
         \<and> ((\<forall>a\<in>set (residuals self). plain_group (h ! a))
              \<longrightarrow> (\<forall>v. in_sieve v s' h' = in_sieve v self h))"
proof (intro conjI impI allI)
  let ?normed = "\<lambda>r :: residual. [(fst r, fst (snd r) mod fst r, False)]"
  from simplified_result [OF assms] obtain rs where
    rs: "collect (map (\<lambda>a. first_simplified (h ! a)) (residuals self)) = Inr rs"
    and m: "map ((!) h') (residuals s') = map ?normed rs"
    by blast
  show "\<forall>a\<in>set (residuals s'). length (h' ! a) = 1"
  proof
    fix a assume "a \<in> set (residuals s')"
    then have "h' ! a \<in> set (map ((!) h') (residuals s'))" by simp
    then have "h' ! a \<in> set (map ?normed rs)" unfolding m .
    then show "length (h' ! a) = 1" by auto
  qed
  fix v
  assume plain: "\<forall>a\<in>set (residuals self). plain_group (h ! a)"
  have "list_all2 (\<lambda>a r. first_simplified (h ! a) = Inr r) (residuals self) rs"
    using rs by (rule collect_all2)
  then have "list_all2 (\<lambda>a r. in_group v (h ! a) = in_group v (?normed r)) (residuals self) rs"
  proof (rule list.rel_mono_strong)
    fix a r
    assume a: "a \<in> set (residuals self)" and f: "first_simplified (h ! a) = Inr r"
    from plain a have "plain_group (h ! a)" by blast
    from first_simplified_plain [OF this] f obtain m s where r: "r = (m, s, False)"
      and sem: "\<forall>v. in_residual v (m, s, False) = in_group v (h ! a)"
      by auto
    have "in_group v (?normed r) = in_residual v (m, s mod m, False)"
      by (simp add: r in_group_def del: in_residual.simps)
    also have "\<dots> = in_residual v (m, s, False)" by (rule in_residual_mod_shift)
    also have "\<dots> = in_group v (h ! a)" using sem by blast
    finally show "in_group v (h ! a) = in_group v (?normed r)" by simp
  qed
  then have "list_ex (\<lambda>a. in_group v (h ! a)) (residuals self)
               = list_ex (\<lambda>r. in_group v (?normed r)) rs"
    by (rule list_ex_all2)
  also have "\<dots> = list_ex (in_group v) (map ?normed rs)"
    by (simp add: list_ex_iff)
  also have "\<dots> = list_ex (in_group v) (map ((!) h') (residuals s'))"
    unfolding m ..
  also have "\<dots> = list_ex (\<lambda>a. in_group v (h' ! a)) (residuals s')"
    by (simp add: list_ex_iff)
  finally show "in_sieve v s' h' = in_sieve v self h"
    by (simp add: in_sieve_def)
qed

theorem simplified_singletons_and_equal_witness:
  "simplified \<lparr>residuals = [0]\<rparr> [[(3, 1, False), (5, 2, False)]]
     = Inr (\<lparr>residuals = [1]\<rparr>, [[(3, 1, False), (5, 2, False)], [(15, 7, False)]])
   \<and> plain_group ([[(3, 1, False), (5, 2, False)]] ! 0)
   \<and> length (([[(3, 1, False), (5, 2, False)], [(15, 7, False)]] :: heap) ! 1) = 1
   \<and> (\<forall>v. in_sieve v \<lparr>residuals = [1]\<rparr> [[(3, 1, False), (5, 2, False)], [(15, 7, False)]]
          = in_sieve v \<lparr>residuals = [0]\<rparr> [[(3, 1, False), (5, 2, False)]])"
proof -
  have run: "simplified \<lparr>residuals = [0]\<rparr> [[(3, 1, False), (5, 2, False)]]
     = Inr (\<lparr>residuals = [1]\<rparr>, [[(3, 1, False), (5, 2, False)], [(15, 7, False)]])"
    by code_simp
  have plain: "plain_group ([[(3, 1, False), (5, 2, False)]] ! 0)"
    by code_simp
  note main = simplified_singletons_and_equal [OF run]
  note single = conjunct1 [OF main]
  have one: "1 \<in> set (residuals \<lparr>residuals = [1::nat]\<rparr>)" by simp
  note len = bspec [OF single one]
  have hyp: "\<forall>a\<in>set (residuals \<lparr>residuals = [0]\<rparr>).
               plain_group ([[(3, 1, False), (5, 2, False)]] ! a)"
    using plain by simp
  from conjunct2 [OF main] hyp
  have eq: "\<forall>v. in_sieve v \<lparr>residuals = [1]\<rparr>
                     [[(3, 1, False), (5, 2, False)], [(15, 7, False)]]
                 = in_sieve v \<lparr>residuals = [0]\<rparr> [[(3, 1, False), (5, 2, False)]]"
    by (rule mp)
  from run plain len eq show ?thesis by (intro conjI)
qed

text \<open>
  The two restrictions come from how the two-residual branch is built. Its result is
  always the one non-negated residual \<open>(m, s, False)\<close> with \<open>m\<close> the product of the two
  moduli. For the group \<open>(4, 0, False), (6, 0, False)\<close> that is \<open>(24, 0, False)\<close>, while
  the group accepts the multiples of 12. For the group \<open>(3, 0, True), (2, 0, False)\<close>,
  which \<open>Sieve(3, 0, True) & (2, 0, False)\<close> builds, it is \<open>(6, 2, False)\<close>, while the
  group accepts the even numbers that 3 does not divide; no single residual, negated or
  not, accepts exactly those.
\<close>

lemma sieve_and_negated_reachable:
  "sieve_init (FromInt 3 (Some 0) (Some True)) [] = Inr (\<lparr>residuals = [0]\<rparr>, [[(3, 0, True)]])
   \<and> sieve_and \<lparr>residuals = [0]\<rparr> (OpTuple 2 0 False) [[(3, 0, True)]]
       = Inr (\<lparr>residuals = [0]\<rparr>, [[(3, 0, True), (2, 0, False)], [(2, 0, False)]])"
proof -
  have "sieve_init (FromInt 3 (Some 0) (Some True)) []
          = Inr (\<lparr>residuals = [0]\<rparr>, [[(3, 0, True)]])"
    by code_simp
  moreover have "sieve_and \<lparr>residuals = [0]\<rparr> (OpTuple 2 0 False) [[(3, 0, True)]]
       = Inr (\<lparr>residuals = [0]\<rparr>, [[(3, 0, True), (2, 0, False)], [(2, 0, False)]])"
    by code_simp
  ultimately show ?thesis by blast
qed

lemma no_residual_for_negated_pair:
  "\<not> (\<exists>r. \<forall>v. in_residual v r = (in_residual v (3, 0, True) \<and> in_residual v (2, 0, False)))"
proof
  assume "\<exists>r. \<forall>v. in_residual v r = (in_residual v (3, 0, True) \<and> in_residual v (2, 0, False))"
  then obtain m s n where
    all: "\<And>v. in_residual v (m, s, n) = (in_residual v (3, 0, True) \<and> in_residual v (2, 0, False))"
    by (metis prod_cases3)
  have v0: "\<not> in_residual 0 (m, s, n)" unfolding all by simp
  have v1: "\<not> in_residual 1 (m, s, n)" unfolding all by simp
  have v2: "in_residual 2 (m, s, n)" unfolding all by simp
  have v4: "in_residual 4 (m, s, n)" unfolding all by simp
  have m0: "m \<noteq> 0" using v0 v2 by (auto split: if_splits)
  note d = in_residual_dvd [OF m0]
  show False
  proof (cases n)
    case False
    from v2 v4 have a: "m dvd (2 - s)" and b: "m dvd (4 - s)"
      unfolding d by (simp_all add: False)
    from dvd_diff [OF b a] have "m dvd 2" by simp
    from dvd_diff [OF this a] have "m dvd s" by simp
    then have "m dvd (0 - s)" by simp
    with v0 show False unfolding d by (simp add: False)
  next
    case True
    from v0 v1 have a: "m dvd (0 - s)" and b: "m dvd (1 - s)"
      unfolding d by (simp_all add: True)
    from dvd_diff [OF b a] have "m dvd 1" by simp
    then have "m dvd (2 - s)" by (rule dvd_trans) simp
    with v2 show False unfolding d by (simp add: True)
  qed
qed

text \<open>
  Claim C7 as stated, for every Sieve and with negated residuals included, fails. The
  Sieve of the group \<open>(4, 0, False), (6, 0, False)\<close> accepts 12 and its simplified form
  rejects 12. The Sieve of the group \<open>(3, 0, True), (2, 0, False)\<close> accepts 4 and its
  simplified form rejects 4.
\<close>

theorem simplified_not_equal:
  "simplified \<lparr>residuals = [0]\<rparr> [[(4, 0, False), (6, 0, False)]]
     = Inr (\<lparr>residuals = [1]\<rparr>, [[(4, 0, False), (6, 0, False)], [(24, 0, False)]])
   \<and> in_sieve 12 \<lparr>residuals = [0]\<rparr> [[(4, 0, False), (6, 0, False)]]
   \<and> \<not> in_sieve 12 \<lparr>residuals = [1]\<rparr> [[(4, 0, False), (6, 0, False)], [(24, 0, False)]]
   \<and> simplified \<lparr>residuals = [0]\<rparr> [[(3, 0, True), (2, 0, False)]]
     = Inr (\<lparr>residuals = [1]\<rparr>, [[(3, 0, True), (2, 0, False)], [(6, 2, False)]])
   \<and> in_sieve 4 \<lparr>residuals = [0]\<rparr> [[(3, 0, True), (2, 0, False)]]
   \<and> \<not> in_sieve 4 \<lparr>residuals = [1]\<rparr> [[(3, 0, True), (2, 0, False)], [(6, 2, False)]]"
proof -
  have "simplified \<lparr>residuals = [0]\<rparr> [[(4, 0, False), (6, 0, False)]]
     = Inr (\<lparr>residuals = [1]\<rparr>, [[(4, 0, False), (6, 0, False)], [(24, 0, False)]])"
    by code_simp
  moreover have "in_sieve 12 \<lparr>residuals = [0]\<rparr> [[(4, 0, False), (6, 0, False)]]"
    by (simp add: in_sieve_def in_group_def)
  moreover have
    "\<not> in_sieve 12 \<lparr>residuals = [1]\<rparr> [[(4, 0, False), (6, 0, False)], [(24, 0, False)]]"
    by (simp add: in_sieve_def in_group_def)
  moreover have "simplified \<lparr>residuals = [0]\<rparr> [[(3, 0, True), (2, 0, False)]]
     = Inr (\<lparr>residuals = [1]\<rparr>, [[(3, 0, True), (2, 0, False)], [(6, 2, False)]])"
    by code_simp
  moreover have "in_sieve 4 \<lparr>residuals = [0]\<rparr> [[(3, 0, True), (2, 0, False)]]"
    by (simp add: in_sieve_def in_group_def)
  moreover have
    "\<not> in_sieve 4 \<lparr>residuals = [1]\<rparr> [[(3, 0, True), (2, 0, False)], [(6, 2, False)]]"
    by (simp add: in_sieve_def in_group_def)
  ultimately show ?thesis by blast
qed

end
